theory Spec2Isabelle
  imports Main
begin

section \<open>JavaScript values and objects\<close>

text \<open>
  The builders keep their configuration in a plain JavaScript object, \<^verbatim>\<open>this._queryOpts\<close>,
  whose values are primitives, arrays, plain objects or instances of \<^verbatim>\<open>Query\<close>
  subclasses. A value is therefore a tagged union. An instance of a \<^verbatim>\<open>Query\<close> subclass
  carries its class (which decides the \<^verbatim>\<open>toJSON\<close> it answers with), its \<^verbatim>\<open>type\<close> tag
  and its \<^verbatim>\<open>_queryOpts\<close>. An object is an association list in insertion order, the order
  in which JavaScript enumerates string keys; keys are unique.
\<close>

datatype qclass = BoolQuery | HasChildQuery | OtherQuery

datatype val =
    JUndefined
  | JNull
  | JBool bool
  | JNum int
  | JStr string
  | JArr "val list"
  | JObj "(string \<times> val) list"
  | JQuery qclass string "(string \<times> val) list"

type_synonym obj = "(string \<times> val) list"

datatype error = TypeError | InvalidOption string

text \<open>\<^verbatim>\<open>_.has(object, key)\<close>: the object has \<^verbatim>\<open>key\<close> as an own property.\<close>

definition has :: "obj \<Rightarrow> string \<Rightarrow> bool" where
  "has object key = (map_of object key \<noteq> None)"

text \<open>\<^verbatim>\<open>object[key]\<close> as a read: \<^verbatim>\<open>undefined\<close> when the key is absent.\<close>

definition obj_get :: "obj \<Rightarrow> string \<Rightarrow> val" where
  "obj_get object key = (case map_of object key of Some v \<Rightarrow> v | None \<Rightarrow> JUndefined)"

text \<open>
  \<^verbatim>\<open>object[key] = v\<close>: an existing key keeps its place and gets the new value, a new key
  goes to the end.
\<close>

fun obj_set :: "obj \<Rightarrow> string \<Rightarrow> val \<Rightarrow> obj" where
  "obj_set [] key v = [(key, v)]"
| "obj_set ((k, w) # rest) key v =
     (if k = key then (k, v) # rest else (k, w) # obj_set rest key v)"

text \<open>\<^verbatim>\<open>_.isArray\<close>, \<^verbatim>\<open>_.isNil\<close>, and the elements of an array.\<close>

fun isArray :: "val \<Rightarrow> bool" where
  "isArray (JArr _) = True"
| "isArray _ = False"

fun elements :: "val \<Rightarrow> val list" where
  "elements (JArr xs) = xs"
| "elements _ = []"

fun isNil :: "val \<Rightarrow> bool" where
  "isNil JUndefined = True"
| "isNil JNull = True"
| "isNil _ = False"

fun isQuery :: "val \<Rightarrow> bool" where
  "isQuery (JQuery _ _ _) = True"
| "isQuery _ = False"

text \<open>
  \<^verbatim>\<open>value.length\<close> for the values that have one (arrays and strings), and \<^verbatim>\<open>_.head\<close>,
  the first element or \<^verbatim>\<open>undefined\<close>. The clause groups only ever hold arrays
  (lemma \<open>addQueries_groups_ok\<close> below), so the other cases are never reached from
  \<^verbatim>\<open>toJSON\<close>.
\<close>

fun js_length :: "val \<Rightarrow> nat option" where
  "js_length (JArr xs) = Some (length xs)"
| "js_length (JStr s) = Some (length s)"
| "js_length _ = None"

fun head :: "val \<Rightarrow> val" where
  "head (JArr (x # _)) = x"
| "head (JStr (c # _)) = JStr [c]"
| "head _ = JUndefined"

text \<open>
  The argument of \<^verbatim>\<open>recursiveToJSON\<close> in \<^verbatim>\<open>BoolQuery.toJSON\<close>:
  \<^verbatim>\<open>clauseQueries.length === 1 ? _.head(clauseQueries) : clauseQueries\<close>.
\<close>

definition unwrapSingle :: "val \<Rightarrow> val" where
  "unwrapSingle clauseQueries =
     (if js_length clauseQueries = Some 1 then head clauseQueries else clauseQueries)"

text \<open>The array literal \<^verbatim>\<open>['must', 'filter', 'must_not', 'should']\<close> of \<^verbatim>\<open>toJSON\<close>.\<close>

definition clauseNames :: "string list" where
  "clauseNames = [''must'', ''filter'', ''must_not'', ''should'']"

section \<open>Serialization\<close>

text \<open>
  Modelled from the spec: \<^verbatim>\<open>recursiveToJSON\<close> of \<^verbatim>\<open>core/util\<close> and the \<^verbatim>\<open>toJSON\<close> of the
  \<^verbatim>\<open>Query\<close> base class are not among the sources. By the spec's Recursive Serializer, a
  value with a clause's serialization contract answers with its own \<^verbatim>\<open>toJSON\<close>, an array
  is mapped element by element, a keyed mapping keeps its keys and maps its values, and
  anything else is returned as it is; by the spec's Base Clause, the default \<^verbatim>\<open>toJSON\<close> is
  the single-key document \<^verbatim>\<open>{ [type]: recursiveToJSON(options) }\<close>.

  The first equation is \<^verbatim>\<open>BoolQuery.toJSON\<close> from the source, written inside the recursion
  because a child of a bool query may be a bool query: \<^verbatim>\<open>_.reduce\<close> over the \<^verbatim>\<open>_.filter\<close>
  of the four clause names, each step assigning \<^verbatim>\<open>qryOpts[clause]\<close> in a fresh object,
  and the result wrapped as \<^verbatim>\<open>{ [this.type]: cleanQryOpts }\<close>.
\<close>

function recursiveToJSON :: "val \<Rightarrow> val" where
  "recursiveToJSON (JQuery BoolQuery t opts) =
     JObj [(t, JObj (fold
       (\<lambda>clause qryOpts. obj_set qryOpts clause
          (recursiveToJSON (unwrapSingle (obj_get opts clause))))
       (filter (has opts) clauseNames) []))]"
| "recursiveToJSON (JQuery HasChildQuery t opts) =
     JObj [(t, JObj (map (\<lambda>(k, v). (k, recursiveToJSON v)) opts))]"
| "recursiveToJSON (JQuery OtherQuery t opts) =
     JObj [(t, JObj (map (\<lambda>(k, v). (k, recursiveToJSON v)) opts))]"
| "recursiveToJSON (JArr xs) = JArr (map recursiveToJSON xs)"
| "recursiveToJSON (JObj kvs) = JObj (map (\<lambda>(k, v). (k, recursiveToJSON v)) kvs)"
| "recursiveToJSON JUndefined = JUndefined"
| "recursiveToJSON JNull = JNull"
| "recursiveToJSON (JBool b) = JBool b"
| "recursiveToJSON (JNum n) = JNum n"
| "recursiveToJSON (JStr s) = JStr s"
  by pat_completeness auto
termination
proof (relation "measure size", goal_cases)
  have entry: "size v < Suc (size_list (size_prod (\<lambda>_. 0) size) object)"
    if "(k, v) \<in> set object" for k v and object :: obj
    using that by (induction object) auto
  have element: "size x < Suc (size_list size xs)"
    if "x \<in> set xs" for x and xs :: "val list"
    using that by (induction xs) auto
  have first: "size (head v) \<le> size v" for v
    by (induction v rule: head.induct) auto
  {
    case 1
    show ?case by simp
  next
    case (2 t opts clause qryOpts)
    then have "map_of opts clause \<noteq> None" by (simp add: has_def)
    then obtain v where v: "map_of opts clause = Some v" by blast
    then have "(clause, v) \<in> set opts" by (rule map_of_SomeD)
    from entry[OF this] v first[of v]
    show ?case by (simp add: obj_get_def unwrapSingle_def)
  next
    case (3 t opts x k v)
    then show ?case using entry[of k v opts] by simp
  next
    case (4 t opts x k v)
    then show ?case using entry[of k v opts] by simp
  next
    case (5 xs x)
    then show ?case using element[of x xs] by simp
  next
    case (6 kvs x k v)
    then show ?case using entry[of k v kvs] by simp
  }
qed

section \<open>The bool query\<close>

text \<open>
  An instance: its class, the \<^verbatim>\<open>type\<close> tag set by the \<^verbatim>\<open>Query\<close> constructor, and
  \<^verbatim>\<open>_queryOpts\<close>. \<open>as_val\<close> is the instance seen as a value, as when it is passed to a
  setter of another query.
\<close>

record query =
  klass :: qclass
  qtype :: string
  queryOpts :: obj

definition as_val :: "query \<Rightarrow> val" where
  "as_val this = JQuery (klass this) (qtype this) (queryOpts this)"

text \<open>
  A method that may throw returns the error thrown, if any, together with the state of
  \<^verbatim>\<open>this\<close> when the call ends: an exception does not undo the assignments made before it.
  A method that returns \<^verbatim>\<open>this\<close> returns no error and the state.
\<close>

type_synonym outcome = "error option \<times> query"

text \<open>
  Modelled from the spec: \<^verbatim>\<open>checkType\<close> of \<^verbatim>\<open>core/util\<close> and the class \<^verbatim>\<open>Query\<close> are not among
  the sources. By the spec's Value Validator, \<^verbatim>\<open>checkType(value, Query)\<close> fails with a
  type mismatch (a \<^verbatim>\<open>TypeError\<close>, by the source's \<^verbatim>\<open>@throws\<close>) when the value is not an
  instance of \<^verbatim>\<open>Query\<close>.
\<close>

definition checkType :: "val \<Rightarrow> error option" where
  "checkType inst = (if isQuery inst then None else Some TypeError)"

text \<open>\<^verbatim>\<open>constructor() { super('bool'); }\<close>: a query of type \<^verbatim>\<open>bool\<close> with no options.\<close>

definition BoolQuery_new :: query where
  "BoolQuery_new = \<lparr>klass = BoolQuery, qtype = ''bool'', queryOpts = []\<rparr>"

text \<open>
  \<^verbatim>\<open>_addQuery(clause, query)\<close>: \<^verbatim>\<open>checkType\<close>, then \<^verbatim>\<open>this._queryOpts[clause].push(query)\<close>.
  The push appends to the array stored under the key; on anything that is not an array
  (\<^verbatim>\<open>undefined\<close> for an absent key) the method call is a \<^verbatim>\<open>TypeError\<close> of the language.
\<close>

definition addQuery :: "string \<Rightarrow> val \<Rightarrow> query \<Rightarrow> outcome" where
  "addQuery clause qry this =
     (case checkType qry of
        Some e \<Rightarrow> (Some e, this)
      | None \<Rightarrow>
          (case obj_get (queryOpts this) clause of
             JArr qs \<Rightarrow>
               (None, this\<lparr>queryOpts := obj_set (queryOpts this) clause (JArr (qs @ [qry]))\<rparr>)
           | _ \<Rightarrow> (Some TypeError, this)))"

text \<open>
  \<^verbatim>\<open>_.invokeMap(collection, path, ...args)\<close> of lodash, for a function \<^verbatim>\<open>path\<close>: lodash
  documents that the function "is invoked for, and \<^verbatim>\<open>this\<close> bound to, each element" and
  that "any additional arguments are provided to each invoked method"; its
  implementation is \<^verbatim>\<open>apply(path, value, args)\<close> for each element \<^verbatim>\<open>value\<close>. The element is
  the receiver of the call, never an argument. The callback is modelled as a function of
  its receiver and its actual argument list; the first exception ends the iteration.
\<close>

fun invokeMap ::
  "val list \<Rightarrow> (val \<Rightarrow> val list \<Rightarrow> query \<Rightarrow> outcome) \<Rightarrow> val list \<Rightarrow> query \<Rightarrow> outcome" where
  "invokeMap [] path args this = (None, this)"
| "invokeMap (v # rest) path args this =
     (case path v args this of
        (Some e, this') \<Rightarrow> (Some e, this')
      | (None, this') \<Rightarrow> invokeMap rest path args this')"

text \<open>The \<open>i\<close>-th actual argument of a call: \<^verbatim>\<open>undefined\<close> when fewer were passed.\<close>

definition nth_arg :: "val list \<Rightarrow> nat \<Rightarrow> val" where
  "nth_arg args i = (if i < length args then args ! i else JUndefined)"

text \<open>
  The first statement of \<^verbatim>\<open>_addQueries\<close>:
  \<^verbatim>\<open>if (!_.has(this._queryOpts, clause)) this._queryOpts[clause] = [];\<close>
\<close>

definition ensureGroup :: "string \<Rightarrow> query \<Rightarrow> query" where
  "ensureGroup clause this =
     (if \<not> has (queryOpts this) clause
      then this\<lparr>queryOpts := obj_set (queryOpts this) clause (JArr [])\<rparr>
      else this)"

text \<open>
  \<^verbatim>\<open>_addQueries(clause, queries)\<close>. The group is created first when the key is absent.
  Then, for an array, \<^verbatim>\<open>_.invokeMap(queries, qry => this._addQuery(clause, qry))\<close>: no
  additional arguments are given, and an arrow function has no receiver of its own, so
  its parameter \<^verbatim>\<open>qry\<close> is the first of no arguments. For any other value,
  \<^verbatim>\<open>this._addQuery(clause, queries)\<close>.
\<close>

definition addQueries :: "string \<Rightarrow> val \<Rightarrow> query \<Rightarrow> outcome" where
  "addQueries clause queries this =
     (let this1 = ensureGroup clause this
      in if isArray queries
         then invokeMap (elements queries)
                (\<lambda>receiver args. addQuery clause (nth_arg args 0)) [] this1
         else addQuery clause queries this1)"

text \<open>The four group setters: \<^verbatim>\<open>this._addQueries(name, queries); return this;\<close>\<close>

definition must :: "val \<Rightarrow> query \<Rightarrow> outcome" where
  "must queries this = addQueries ''must'' queries this"

definition filter_clause :: "val \<Rightarrow> query \<Rightarrow> outcome" where
  "filter_clause queries this = addQueries ''filter'' queries this"

definition mustNot :: "val \<Rightarrow> query \<Rightarrow> outcome" where
  "mustNot queries this = addQueries ''must_not'' queries this"

definition should :: "val \<Rightarrow> query \<Rightarrow> outcome" where
  "should queries this = addQueries ''should'' queries this"

text \<open>
  A chain of calls of one setter, \<^verbatim>\<open>q.must(v1).must(v2)\<close> and so on: the first call that
  throws ends the chain.
\<close>

fun chain :: "(val \<Rightarrow> query \<Rightarrow> outcome) \<Rightarrow> val list \<Rightarrow> query \<Rightarrow> outcome" where
  "chain setter [] this = (None, this)"
| "chain setter (v # vs) this =
     (case setter v this of
        (Some e, this') \<Rightarrow> (Some e, this')
      | (None, this') \<Rightarrow> chain setter vs this')"

text \<open>The scalar setters assign without a check and return \<^verbatim>\<open>this\<close>; they cannot throw.\<close>

definition disableCoord :: "val \<Rightarrow> query \<Rightarrow> query" where
  "disableCoord enable this =
     this\<lparr>queryOpts := obj_set (queryOpts this) ''disable_coord'' enable\<rparr>"

definition minimumShouldMatch :: "val \<Rightarrow> query \<Rightarrow> query" where
  "minimumShouldMatch m this =
     this\<lparr>queryOpts := obj_set (queryOpts this) ''minimum_should_match'' m\<rparr>"

definition adjustPureNegative :: "val \<Rightarrow> query \<Rightarrow> query" where
  "adjustPureNegative enable this =
     this\<lparr>queryOpts := obj_set (queryOpts this) ''adjust_pure_negative'' enable\<rparr>"

text \<open>
  \<^verbatim>\<open>BoolQuery.toJSON\<close>, as the source writes it: \<open>cleanQryOpts\<close> is the \<^verbatim>\<open>_.reduce\<close> over
  the clause names that \<^verbatim>\<open>_queryOpts\<close> has, starting from \<^verbatim>\<open>{}\<close>.
\<close>

definition cleanQryOpts :: "query \<Rightarrow> obj" where
  "cleanQryOpts this =
     fold (\<lambda>clause qryOpts. obj_set qryOpts clause
             (recursiveToJSON (unwrapSingle (obj_get (queryOpts this) clause))))
       (filter (has (queryOpts this)) clauseNames) []"

definition toJSON :: "query \<Rightarrow> val" where
  "toJSON this = JObj [(qtype this, JObj (cleanQryOpts this))]"

text \<open>
  The clauses a group holds: the elements of the array under the group's key, none when the
  key is absent.
\<close>

definition clauses_of :: "query \<Rightarrow> string \<Rightarrow> val list" where
  "clauses_of this clause = elements (obj_get (queryOpts this) clause)"

text \<open>
  The shape of \<^verbatim>\<open>_queryOpts\<close> that the group setters keep: under each of the four clause
  names, if anything, an array of \<^verbatim>\<open>Query\<close> instances.
\<close>

definition groups_ok :: "obj \<Rightarrow> bool" where
  "groups_ok opts =
     list_all (\<lambda>clause. has opts clause \<longrightarrow>
                 isArray (obj_get opts clause) \<and>
                 list_all isQuery (elements (obj_get opts clause))) clauseNames"

section \<open>The has-child query\<close>

text \<open>
  \<^verbatim>\<open>constructor(qry, type)\<close>. The class \<^verbatim>\<open>JoiningQueryBase\<close> is not among the sources, so the
  instance as \<^verbatim>\<open>super('has_child', ES_REF_URL, qry)\<close> leaves it is the parameter \<open>base\<close>;
  the constructor itself stores \<^verbatim>\<open>child_type\<close> unless the type is \<^verbatim>\<open>null\<close> or \<^verbatim>\<open>undefined\<close>.
\<close>

definition HasChildQuery_new :: "query \<Rightarrow> val \<Rightarrow> query" where
  "HasChildQuery_new base type =
     (if \<not> isNil type
      then base\<lparr>queryOpts := obj_set (queryOpts base) ''child_type'' type\<rparr>
      else base)"

text \<open>
  The setters \<^verbatim>\<open>childType\<close>, \<^verbatim>\<open>minChildren\<close> and \<^verbatim>\<open>maxChildren\<close>: an unconditional
  assignment, then \<^verbatim>\<open>return this\<close>.
\<close>

definition childType :: "val \<Rightarrow> query \<Rightarrow> query" where
  "childType type this = this\<lparr>queryOpts := obj_set (queryOpts this) ''child_type'' type\<rparr>"

definition minChildren :: "val \<Rightarrow> query \<Rightarrow> query" where
  "minChildren limit this =
     this\<lparr>queryOpts := obj_set (queryOpts this) ''min_children'' limit\<rparr>"

definition maxChildren :: "val \<Rightarrow> query \<Rightarrow> query" where
  "maxChildren limit this =
     this\<lparr>queryOpts := obj_set (queryOpts this) ''max_children'' limit\<rparr>"

text \<open>
  The function that the class body stores as \<^verbatim>\<open>HasChildQuery.prototype.type\<close>, applied to
  a receiver: \<^verbatim>\<open>return this.childType(type)\<close>. This is the function itself, as
  \<^verbatim>\<open>HasChildQuery.prototype.type.call(h, t)\<close> would run it; what the call expression
  \<^verbatim>\<open>h.type(t)\<close> does is \<open>call\<close> below.
\<close>

definition type :: "val \<Rightarrow> query \<Rightarrow> query" where
  "type t this = childType t this"

text \<open>
  Modelled from the spec: the constructor of \<^verbatim>\<open>Query\<close> is not among the sources. By the
  spec's data model a clause has the attributes \<^verbatim>\<open>type\<close>, the tag set once at construction,
  and the options; the source reads them as \<^verbatim>\<open>this.type\<close> and \<^verbatim>\<open>this._queryOpts\<close>
  (\<^verbatim>\<open>toJSON\<close> of the bool query). They are own properties of every instance.
\<close>

definition own_properties :: "query \<Rightarrow> obj" where
  "own_properties this =
     [(''type'', JStr (qtype this)), (''_queryOpts'', JObj (queryOpts this))]"

text \<open>The methods that the class body of \<^verbatim>\<open>HasChildQuery\<close> puts on its prototype.\<close>

definition HasChildQuery_prototype :: "(string \<times> (val \<Rightarrow> query \<Rightarrow> query)) list" where
  "HasChildQuery_prototype =
     [(''type'', type), (''childType'', childType),
      (''minChildren'', minChildren), (''maxChildren'', maxChildren)]"

text \<open>
  The call expression \<^verbatim>\<open>h.name(arg)\<close> for an instance \<^verbatim>\<open>h\<close> of \<^verbatim>\<open>HasChildQuery\<close>. The
  language looks the property up on the instance first and on the prototype after: an own
  property hides a method of the same name, and calling its value, a string or a plain
  object, is a \<^verbatim>\<open>TypeError\<close> (not a function), as is calling a property that is nowhere.
  On an instance of another class the methods of this prototype are nowhere.
\<close>

definition call :: "string \<Rightarrow> val \<Rightarrow> query \<Rightarrow> outcome" where
  "call name arg this =
     (if has (own_properties this) name then (Some TypeError, this)
      else if klass this \<noteq> HasChildQuery then (Some TypeError, this)
      else (case map_of HasChildQuery_prototype name of
              Some method \<Rightarrow> (None, method arg this)
            | None \<Rightarrow> (Some TypeError, this)))"

text \<open>
  A has-child query with no options yet: the type tag is the first argument of the
  constructor's \<^verbatim>\<open>super\<close> call, \<^verbatim>\<open>has_child\<close>.
\<close>

definition has_child_empty :: query where
  "has_child_empty = \<lparr>klass = HasChildQuery, qtype = ''has_child'', queryOpts = []\<rparr>"

section \<open>Enumerated options\<close>

text \<open>\<^verbatim>\<open>String.prototype.toLowerCase\<close> on ASCII letters.\<close>

definition lower_char :: "char \<Rightarrow> char" where
  "lower_char c =
     (let n = (of_char c :: nat) in if 65 \<le> n \<and> n \<le> 90 then char_of (n + 32) else c)"

definition toLowerCase :: "string \<Rightarrow> string" where
  "toLowerCase s = map lower_char s"

definition quote :: string where
  "quote = [CHR 0x27]"

text \<open>
  Modelled from the spec: the validator of enumerated options and the \<^verbatim>\<open>order\<close> setter of
  \<^verbatim>\<open>TermsAggregation\<close> are not among the sources; only the test of \<^verbatim>\<open>order\<close> is. By the
  spec's Value Validator, \<^verbatim>\<open>validateEnum(value, allowedValues)\<close> compares without regard
  to letter case, answers with the value in its lower-case canonical form, and fails with
  an \<^verbatim>\<open>InvalidOption\<close> error whose message names the parameter and lists the allowed
  values: \<^verbatim>\<open>The '<param>' parameter should be one of '<v1>' or '<v2>'\<close>.
\<close>

fun oneOf :: "string list \<Rightarrow> string" where
  "oneOf [] = []"
| "oneOf [v] = quote @ v @ quote"
| "oneOf (v # vs) = quote @ v @ quote @ '' or '' @ oneOf vs"

definition invalidParam :: "string \<Rightarrow> string list \<Rightarrow> error" where
  "invalidParam paramName validValues =
     InvalidOption (''The '' @ quote @ paramName @ quote @ '' parameter should be one of ''
                    @ oneOf validValues)"

definition validateEnum :: "string \<Rightarrow> string list \<Rightarrow> val \<Rightarrow> error + val" where
  "validateEnum paramName allowedValues v =
     (case v of
        JStr s \<Rightarrow>
          if toLowerCase s \<in> set allowedValues then Inr (JStr (toLowerCase s))
          else Inl (invalidParam paramName allowedValues)
      | _ \<Rightarrow> Inl (invalidParam paramName allowedValues))"

text \<open>
  Modelled from the spec: \<^verbatim>\<open>order(key, direction)\<close> validates the direction against
  \<^verbatim>\<open>asc\<close> and \<^verbatim>\<open>desc\<close>; by the test, a call without a direction does not throw and
  orders descending. The result is the order entry \<^verbatim>\<open>{ [key]: direction }\<close>.
\<close>

definition order :: "string \<Rightarrow> val \<Rightarrow> error + obj" where
  "order key direction =
     (case validateEnum ''direction'' [''asc'', ''desc'']
             (if direction = JUndefined then JStr ''desc'' else direction) of
        Inl e \<Rightarrow> Inl e
      | Inr d \<Rightarrow> Inr [(key, d)])"

section \<open>Serialization on a store\<close>

text \<open>
  For what a call of \<^verbatim>\<open>toJSON\<close> leaves behind, the objects are kept in a store: a value is
  a primitive or a reference, and a reference names a cell of the store, an array, a plain
  object or an instance of a \<^verbatim>\<open>Query\<close> subclass (its class, its tag \<^verbatim>\<open>type\<close>, and the
  reference held by \<^verbatim>\<open>_queryOpts\<close>). A new object takes the next free address; an
  assignment to a property replaces the cell of the object assigned to. Two references to
  one cell are one object. The store is the list of its cells, a cell's address its index:
  a new object is appended.
\<close>

type_synonym addr = nat

datatype sval = SUndefined | SNull | SBool bool | SNum int | SStr string | SRef addr

type_synonym props = "(string \<times> sval) list"

datatype cell = Array "sval list" | Object props | Instance qclass string addr

type_synonym store = "cell list"

definition cell_at :: "store \<Rightarrow> addr \<Rightarrow> cell option" where
  "cell_at s a = (if a < length s then Some (s ! a) else None)"

text \<open>\<^verbatim>\<open>_.has\<close>, a property read and a property assignment, on the properties of a cell.\<close>

definition prop_has :: "props \<Rightarrow> string \<Rightarrow> bool" where
  "prop_has object key = (map_of object key \<noteq> None)"

definition prop_get :: "props \<Rightarrow> string \<Rightarrow> sval" where
  "prop_get object key = (case map_of object key of Some v \<Rightarrow> v | None \<Rightarrow> SUndefined)"

fun prop_set :: "props \<Rightarrow> string \<Rightarrow> sval \<Rightarrow> props" where
  "prop_set [] key v = [(key, v)]"
| "prop_set ((k, w) # rest) key v =
     (if k = key then (k, v) # rest else (k, w) # prop_set rest key v)"

text \<open>
  Applying a function that may allocate to the elements of a list, left to right, each call
  starting from the store the one before left.
\<close>

fun mapS ::
  "(store \<Rightarrow> sval \<Rightarrow> (sval \<times> store) option) \<Rightarrow> sval list \<Rightarrow> store
     \<Rightarrow> (sval list \<times> store) option" where
  "mapS f [] s = Some ([], s)"
| "mapS f (x # xs) s =
     (case f s x of
        None \<Rightarrow> None
      | Some (y, s1) \<Rightarrow>
          (case mapS f xs s1 of
             None \<Rightarrow> None
           | Some (ys, s2) \<Rightarrow> Some (y # ys, s2)))"

text \<open>
  \<^verbatim>\<open>clauseQueries.length === 1 ? _.head(clauseQueries) : clauseQueries\<close> on the store: the
  only element of a one-element array, otherwise the value itself (the head of a
  one-character string is that string).
\<close>

definition unwrapSingleS :: "store \<Rightarrow> sval \<Rightarrow> sval" where
  "unwrapSingleS s clauseQueries =
     (case clauseQueries of
        SRef a \<Rightarrow> (case cell_at s a of Some (Array [q]) \<Rightarrow> q | _ \<Rightarrow> clauseQueries)
      | _ \<Rightarrow> clauseQueries)"

text \<open>
  The callback of the reduce in \<^verbatim>\<open>BoolQuery.toJSON\<close>, with the accumulator \<^verbatim>\<open>qryOpts\<close> a
  reference: it reads \<^verbatim>\<open>this._queryOpts[clause]\<close>, calls \<^verbatim>\<open>recursiveToJSON\<close> (the
  parameter \<open>rec\<close>), assigns the result to \<^verbatim>\<open>qryOpts[clause]\<close> in place, and returns the
  same reference.
\<close>

definition toJSON_callback ::
  "(store \<Rightarrow> sval \<Rightarrow> (sval \<times> store) option) \<Rightarrow> addr \<Rightarrow> addr \<Rightarrow> string \<Rightarrow> store
     \<Rightarrow> store option" where
  "toJSON_callback rec this qryOpts clause s =
     (case cell_at s this of
        Some (Instance c t opts_at) \<Rightarrow>
          (case cell_at s opts_at of
             Some (Object opts) \<Rightarrow>
               (case rec s (unwrapSingleS s (prop_get opts clause)) of
                  None \<Rightarrow> None
                | Some (d, s1) \<Rightarrow>
                    (case cell_at s1 qryOpts of
                       Some (Object acc) \<Rightarrow> Some (s1[qryOpts := Object (prop_set acc clause d)])
                     | _ \<Rightarrow> None))
           | _ \<Rightarrow> None)
      | _ \<Rightarrow> None)"

fun reduceS :: "(string \<Rightarrow> store \<Rightarrow> store option) \<Rightarrow> string list \<Rightarrow> store \<Rightarrow> store option" where
  "reduceS f [] s = Some s"
| "reduceS f (x # xs) s = (case f x s of None \<Rightarrow> None | Some s1 \<Rightarrow> reduceS f xs s1)"

text \<open>
  \<^verbatim>\<open>BoolQuery.toJSON\<close> on the store. The array literal, the array that \<^verbatim>\<open>_.filter\<close>
  returns and the initial value \<^verbatim>\<open>{}\<close> of the reduce are new objects; the result is the
  new object \<^verbatim>\<open>{ [this.type]: cleanQryOpts }\<close>.
\<close>

definition BoolQuery_toJSON ::
  "(store \<Rightarrow> sval \<Rightarrow> (sval \<times> store) option) \<Rightarrow> addr \<Rightarrow> store \<Rightarrow> (sval \<times> store) option" where
  "BoolQuery_toJSON rec this s =
     (case cell_at s this of
        Some (Instance c t opts_at) \<Rightarrow>
          (case cell_at s opts_at of
             Some (Object opts) \<Rightarrow>
               (let picked = filter (prop_has opts) clauseNames;
                    s1 = s @ [Array (map SStr clauseNames)];
                    s2 = s1 @ [Array (map SStr picked)];
                    qryOpts = length s2;
                    s3 = s2 @ [Object []]
                in case reduceS (toJSON_callback rec this qryOpts) picked s3 of
                     None \<Rightarrow> None
                   | Some s4 \<Rightarrow>
                       (case cell_at s4 this of
                          Some (Instance c' t' o') \<Rightarrow>
                            Some (SRef (length s4), s4 @ [Object [(t', SRef qryOpts)]])
                        | _ \<Rightarrow> None))
           | _ \<Rightarrow> None)
      | _ \<Rightarrow> None)"

text \<open>
  Modelled from the spec: the \<^verbatim>\<open>toJSON\<close> of the \<^verbatim>\<open>Query\<close> base class is not among the
  sources. By the spec's Base Clause it is the new single-key object
  \<^verbatim>\<open>{ [type]: recursiveToJSON(options) }\<close>.
\<close>

definition Query_toJSON ::
  "(store \<Rightarrow> sval \<Rightarrow> (sval \<times> store) option) \<Rightarrow> addr \<Rightarrow> store \<Rightarrow> (sval \<times> store) option" where
  "Query_toJSON rec this s =
     (case cell_at s this of
        Some (Instance c t opts_at) \<Rightarrow>
          (case rec s (SRef opts_at) of
             None \<Rightarrow> None
           | Some (d, s1) \<Rightarrow> Some (SRef (length s1), s1 @ [Object [(t, d)]]))
      | _ \<Rightarrow> None)"

text \<open>
  Modelled from the spec: \<^verbatim>\<open>recursiveToJSON\<close> of \<^verbatim>\<open>core/util\<close> is not among the sources.
  By the spec's Recursive Serializer, an array gives a new array of the serialized
  elements, a keyed mapping a new mapping with the same keys and the serialized values, a
  clause answers with its own \<^verbatim>\<open>toJSON\<close> (the bool query's from the source, every other
  class's the default), and a primitive is returned as it is. A clause graph with a cycle
  makes the recursion run for ever; here the recursion has fuel, and no fuel left is the
  answer \<open>None\<close>.
\<close>

definition serialize_cell ::
  "(store \<Rightarrow> sval \<Rightarrow> (sval \<times> store) option) \<Rightarrow> addr \<Rightarrow> cell \<Rightarrow> store
     \<Rightarrow> (sval \<times> store) option" where
  "serialize_cell rec a c s =
     (case c of
        Array xs \<Rightarrow>
          (case mapS rec xs s of
             None \<Rightarrow> None
           | Some (ys, s1) \<Rightarrow> Some (SRef (length s1), s1 @ [Array ys]))
      | Object kvs \<Rightarrow>
          (case mapS rec (map snd kvs) s of
             None \<Rightarrow> None
           | Some (ys, s1) \<Rightarrow> Some (SRef (length s1), s1 @ [Object (zip (map fst kvs) ys)]))
      | Instance cls t opts_at \<Rightarrow>
          (if cls = BoolQuery then BoolQuery_toJSON rec a s else Query_toJSON rec a s))"

fun is_ref :: "sval \<Rightarrow> bool" where
  "is_ref (SRef a) = True"
| "is_ref _ = False"

fun the_addr :: "sval \<Rightarrow> addr" where
  "the_addr (SRef a) = a"
| "the_addr _ = 0"

primrec recursiveToJSON_store :: "nat \<Rightarrow> store \<Rightarrow> sval \<Rightarrow> (sval \<times> store) option" where
  "recursiveToJSON_store 0 s v = None"
| "recursiveToJSON_store (Suc n) s v =
     (if is_ref v
      then (case cell_at s (the_addr v) of
              None \<Rightarrow> None
            | Some c \<Rightarrow> serialize_cell (recursiveToJSON_store n) (the_addr v) c s)
      else Some (v, s))"

declare recursiveToJSON_store.simps(2) [simp del]

text \<open>
  The tree that a value of the store stands for, read to a given depth and through the
  addresses from \<open>lo\<close> on only: \<open>None\<close> when a reference dangles, when \<^verbatim>\<open>_queryOpts\<close> is
  not a plain object, when the depth does not suffice (as on a cycle), or when an address
  below \<open>lo\<close> is met. With \<open>lo = 0\<close> it is the clause tree as the serializer of the first
  sections sees it. \<open>collect\<close> reads the elements of a list, all or none; \<open>prim_val\<close> is a
  primitive as a tree.
\<close>

fun collect :: "('a \<Rightarrow> 'b option) \<Rightarrow> 'a list \<Rightarrow> 'b list option" where
  "collect f [] = Some []"
| "collect f (x # xs) =
     (case f x of
        None \<Rightarrow> None
      | Some y \<Rightarrow> (case collect f xs of None \<Rightarrow> None | Some ys \<Rightarrow> Some (y # ys)))"

fun prim_val :: "sval \<Rightarrow> val" where
  "prim_val SUndefined = JUndefined"
| "prim_val SNull = JNull"
| "prim_val (SBool b) = JBool b"
| "prim_val (SNum i) = JNum i"
| "prim_val (SStr x) = JStr x"
| "prim_val (SRef a) = JUndefined"

definition tree_of_cell :: "(sval \<Rightarrow> val option) \<Rightarrow> cell \<Rightarrow> val option" where
  "tree_of_cell rd c =
     (case c of
        Array xs \<Rightarrow> map_option JArr (collect rd xs)
      | Object kvs \<Rightarrow>
          map_option (\<lambda>vs. JObj (zip (map fst kvs) vs)) (collect rd (map snd kvs))
      | Instance cls t opts_at \<Rightarrow>
          (case rd (SRef opts_at) of
             Some (JObj kvs) \<Rightarrow> Some (JQuery cls t kvs)
           | _ \<Rightarrow> None))"

primrec tree_from :: "nat \<Rightarrow> addr \<Rightarrow> store \<Rightarrow> sval \<Rightarrow> val option" where
  "tree_from 0 lo s v = None"
| "tree_from (Suc n) lo s v =
     (if is_ref v
      then (if the_addr v < lo then None
            else (case cell_at s (the_addr v) of
                    None \<Rightarrow> None
                  | Some c \<Rightarrow> tree_of_cell (tree_from n lo s) c))
      else Some (prim_val v))"

declare tree_from.simps(2) [simp del]

text \<open>
  A store keeps what another had: it is at least as long and agrees with it on every
  address of the other.
\<close>

definition preserved :: "store \<Rightarrow> store \<Rightarrow> bool" where
  "preserved s s' = (length s \<le> length s' \<and> take (length s) s' = s)"

text \<open>
  A function on the store computes the serializer on trees: from any store in which its
  argument reads as a tree (with fuel \<open>m\<close>), it returns, keeps what the store had, and its
  result reads (with fuel \<open>k\<close>, through new addresses only) as the serialized tree.
\<close>

definition simulates ::
  "(store \<Rightarrow> sval \<Rightarrow> (sval \<times> store) option) \<Rightarrow> nat \<Rightarrow> nat \<Rightarrow> bool" where
  "simulates rec m k =
     (\<forall>s v t. tree_from m 0 s v = Some t \<longrightarrow>
        (\<exists>d s'. rec s v = Some (d, s') \<and> preserved s s'
           \<and> tree_from k (length s) s' d = Some (recursiveToJSON t)))"

text \<open>
  A store with a bool query at address 0: \<^verbatim>\<open>should\<close> holds a leaf query and a bool query
  with an empty \<^verbatim>\<open>filter\<close> group, \<^verbatim>\<open>must\<close> holds the same leaf query, and \<^verbatim>\<open>boost\<close> is a
  number. \<open>example_tree\<close> is the tree it stands for.
\<close>

definition example_store :: store where
  "example_store =
     [Instance BoolQuery ''bool'' 1,
      Object [(''should'', SRef 2), (''must'', SRef 3), (''boost'', SNum 2)],
      Array [SRef 4, SRef 6],
      Array [SRef 4],
      Instance OtherQuery ''match_all'' 5,
      Object [],
      Instance BoolQuery ''bool'' 7,
      Object [(''filter'', SRef 8)],
      Array []]"

definition example_tree :: val where
  "example_tree =
     JQuery BoolQuery ''bool''
       [(''should'', JArr [JQuery OtherQuery ''match_all'' [],
                          JQuery BoolQuery ''bool'' [(''filter'', JArr [])]]),
        (''must'', JArr [JQuery OtherQuery ''match_all'' []]),
        (''boost'', JNum 2)]"

section \<open>Objects as association lists\<close>

lemma map_of_obj_set: "map_of (obj_set object key v) = (map_of object)(key \<mapsto> v)"
  by (induction object) (auto simp: fun_eq_iff)

lemma has_obj_set: "has (obj_set object key v) k = (k = key \<or> has object k)"
  by (simp add: has_def map_of_obj_set)

lemma obj_get_obj_set:
  "obj_get (obj_set object key v) k = (if k = key then v else obj_get object k)"
  by (simp add: obj_get_def map_of_obj_set)

lemma obj_set_fresh:
  "key \<notin> fst ` set object \<Longrightarrow> obj_set object key v = object @ [(key, v)]"
  by (induction object) auto

lemma obj_set_obj_set: "obj_set (obj_set object key v) key w = obj_set object key w"
  by (induction object) auto

lemma obj_get_array_has: "obj_get object key = JArr qs \<Longrightarrow> has object key"
  by (auto simp: has_def obj_get_def split: option.splits)

lemma isQuery_not_array: "isQuery v \<Longrightarrow> \<not> isArray v"
  by (cases v) auto

section \<open>What the reduce of toJSON computes\<close>

text \<open>
  Assigning distinct keys one after the other into the fresh accumulator appends them, so
  the reduce builds one entry per present clause name, in the order of the array literal.
\<close>

lemma fold_obj_set:
  "distinct ks \<Longrightarrow> set ks \<inter> fst ` set acc = {} \<Longrightarrow>
     fold (\<lambda>k qryOpts. obj_set qryOpts k (f k)) ks acc = acc @ map (\<lambda>k. (k, f k)) ks"
proof (induction ks arbitrary: acc)
  case Nil
  then show ?case by simp
next
  case (Cons k ks)
  have fresh: "k \<notin> fst ` set acc" using Cons.prems(2) by auto
  have "set ks \<inter> fst ` set (acc @ [(k, f k)]) = {}"
    using Cons.prems by auto
  with Cons.IH[of "acc @ [(k, f k)]"] Cons.prems(1) fresh
  show ?case by (simp add: obj_set_fresh)
qed

lemma distinct_clauseNames: "distinct clauseNames"
  by (simp add: clauseNames_def)

lemma cleanQryOpts_map:
  "cleanQryOpts this =
     map (\<lambda>clause. (clause, recursiveToJSON (unwrapSingle (obj_get (queryOpts this) clause))))
       (filter (has (queryOpts this)) clauseNames)"
  unfolding cleanQryOpts_def
  by (rule fold_obj_set[where acc = "[]", simplified]) (simp add: distinct_clauseNames)

lemma map_of_map_filter:
  "map_of (map (\<lambda>k. (k, f k)) (filter P ks)) key =
     (if key \<in> set ks \<and> P key then Some (f key) else None)"
  by (induction ks) auto

lemma map_of_cleanQryOpts:
  "map_of (cleanQryOpts this) clause =
     (if clause \<in> set clauseNames \<and> has (queryOpts this) clause
      then Some (recursiveToJSON (unwrapSingle (obj_get (queryOpts this) clause)))
      else None)"
  unfolding cleanQryOpts_map by (rule map_of_map_filter)

text \<open>The serializer answers for a bool query with the query's own \<open>toJSON\<close>.\<close>

lemma toJSON_recursiveToJSON:
  "klass this = BoolQuery \<Longrightarrow> recursiveToJSON (as_val this) = toJSON this"
  by (simp add: as_val_def toJSON_def cleanQryOpts_def)

section \<open>Adding one valid clause\<close>

lemma addQueries_single:
  assumes "isQuery q"
    and "has (queryOpts this) clause \<longrightarrow> isArray (obj_get (queryOpts this) clause)"
  shows "addQueries clause q this =
           (None, this\<lparr>queryOpts :=
                    obj_set (queryOpts this) clause (JArr (clauses_of this clause @ [q]))\<rparr>)"
proof (cases "has (queryOpts this) clause")
  case True
  with assms(2) obtain qs where "obj_get (queryOpts this) clause = JArr qs"
    by (cases "obj_get (queryOpts this) clause") auto
  with True assms(1) show ?thesis
    by (simp add: addQueries_def ensureGroup_def addQuery_def checkType_def isQuery_not_array
        clauses_of_def)
next
  case False
  then have "obj_get (queryOpts this) clause = JUndefined"
    by (simp add: has_def obj_get_def)
  with False assms(1) show ?thesis
    by (simp add: addQueries_def ensureGroup_def addQuery_def checkType_def isQuery_not_array
        clauses_of_def obj_get_obj_set obj_set_obj_set)
qed

section \<open>The effect of a group setter\<close>

lemma invokeMap_no_argument:
  "invokeMap items (\<lambda>receiver args. addQuery clause (nth_arg args 0)) [] this =
     ((if items = [] then None else Some TypeError), this)"
  by (cases items) (simp_all add: nth_arg_def addQuery_def checkType_def)

lemma addQueries_array:
  "addQueries clause (JArr items) this =
     ((if items = [] then None else Some TypeError), ensureGroup clause this)"
  by (simp add: addQueries_def invokeMap_no_argument)

lemma addQueries_not_query:
  "\<not> isQuery v \<Longrightarrow> \<not> isArray v \<Longrightarrow>
     addQueries clause v this = (Some TypeError, ensureGroup clause this)"
  by (simp add: addQueries_def addQuery_def checkType_def)

lemma qtype_ensureGroup: "qtype (ensureGroup clause this) = qtype this"
  and klass_ensureGroup: "klass (ensureGroup clause this) = klass this"
  by (simp_all add: ensureGroup_def)

lemma map_of_ensureGroup:
  "map_of (queryOpts (ensureGroup clause this)) =
     (if has (queryOpts this) clause then map_of (queryOpts this)
      else (map_of (queryOpts this))(clause \<mapsto> JArr []))"
  by (simp add: ensureGroup_def map_of_obj_set)

lemma addQuery_cases:
  "addQuery clause v this = (Some TypeError, this) \<or>
   (\<exists>qs. isQuery v \<and> obj_get (queryOpts this) clause = JArr qs \<and>
      addQuery clause v this =
        (None, this\<lparr>queryOpts := obj_set (queryOpts this) clause (JArr (qs @ [v]))\<rparr>))"
  by (auto simp: addQuery_def checkType_def split: val.splits)

lemma qtype_addQuery: "qtype (snd (addQuery clause v this)) = qtype this"
  and klass_addQuery: "klass (snd (addQuery clause v this)) = klass this"
  using addQuery_cases[of clause v this] by auto

lemma qtype_addQueries: "qtype (snd (addQueries clause v this)) = qtype this"
proof (cases "isArray v")
  case True
  then obtain items where "v = JArr items" by (cases v) auto
  then show ?thesis by (simp add: addQueries_array qtype_ensureGroup)
next
  case False
  then show ?thesis by (simp add: addQueries_def qtype_addQuery qtype_ensureGroup)
qed

lemma klass_addQueries: "klass (snd (addQueries clause v this)) = klass this"
proof (cases "isArray v")
  case True
  then obtain items where "v = JArr items" by (cases v) auto
  then show ?thesis by (simp add: addQueries_array klass_ensureGroup)
next
  case False
  then show ?thesis by (simp add: addQueries_def klass_addQuery klass_ensureGroup)
qed

text \<open>
  A call that throws throws a \<^verbatim>\<open>TypeError\<close>, and all it has done by then is the first
  statement of \<^verbatim>\<open>_addQueries\<close>.
\<close>

lemma addQueries_throws:
  assumes "fst (addQueries clause v this) \<noteq> None"
  shows "addQueries clause v this = (Some TypeError, ensureGroup clause this)"
proof (cases "isArray v")
  case True
  then obtain items where "v = JArr items" by (cases v) auto
  with assms show ?thesis by (simp add: addQueries_array split: if_splits)
next
  case False
  with assms addQuery_cases[of clause v "ensureGroup clause this"] show ?thesis
    by (auto simp: addQueries_def)
qed

text \<open>A group setter leaves every other key as it was.\<close>

lemma map_of_addQuery_other:
  "k \<noteq> clause \<Longrightarrow> map_of (queryOpts (snd (addQuery clause v this))) k = map_of (queryOpts this) k"
  using addQuery_cases[of clause v this] by (auto simp: map_of_obj_set)

lemma map_of_addQueries_other:
  assumes "k \<noteq> clause"
  shows "map_of (queryOpts (snd (addQueries clause v this))) k = map_of (queryOpts this) k"
proof (cases "isArray v")
  case True
  then obtain items where "v = JArr items" by (cases v) auto
  with assms show ?thesis by (simp add: addQueries_array map_of_ensureGroup)
next
  case False
  with assms show ?thesis
    by (simp add: addQueries_def map_of_addQuery_other map_of_ensureGroup)
qed

text \<open>What it stores under its own key depends only on what was stored there.\<close>

lemma map_of_addQuery_same:
  assumes "map_of (queryOpts a) clause = map_of (queryOpts b) clause"
  shows "map_of (queryOpts (snd (addQuery clause v a))) clause =
         map_of (queryOpts (snd (addQuery clause v b))) clause"
proof -
  from assms have "obj_get (queryOpts a) clause = obj_get (queryOpts b) clause"
    by (simp add: obj_get_def)
  with assms show ?thesis
    by (auto simp: addQuery_def checkType_def map_of_obj_set split: val.splits)
qed

lemma map_of_addQueries_same:
  assumes "map_of (queryOpts a) clause = map_of (queryOpts b) clause"
  shows "map_of (queryOpts (snd (addQueries clause v a))) clause =
         map_of (queryOpts (snd (addQueries clause v b))) clause"
proof -
  from assms have h: "has (queryOpts a) clause = has (queryOpts b) clause"
    by (simp add: has_def)
  with assms have e: "map_of (queryOpts (ensureGroup clause a)) clause =
                      map_of (queryOpts (ensureGroup clause b)) clause"
    by (simp add: map_of_ensureGroup)
  show ?thesis
  proof (cases "isArray v")
    case True
    then obtain items where "v = JArr items" by (cases v) auto
    with e show ?thesis by (simp add: addQueries_array)
  next
    case False
    with map_of_addQuery_same[OF e] show ?thesis by (simp add: addQueries_def)
  qed
qed

lemma addQueries_commute:
  assumes "k1 \<noteq> k2"
  shows "map_of (queryOpts (snd (addQueries k1 v1 (snd (addQueries k2 v2 this))))) =
         map_of (queryOpts (snd (addQueries k2 v2 (snd (addQueries k1 v1 this)))))"
proof
  fix k
  let ?a = "snd (addQueries k2 v2 this)" and ?b = "snd (addQueries k1 v1 this)"
  consider "k = k1" | "k = k2" | "k \<noteq> k1" "k \<noteq> k2" by blast
  then show "map_of (queryOpts (snd (addQueries k1 v1 ?a))) k =
             map_of (queryOpts (snd (addQueries k2 v2 ?b))) k"
  proof cases
    case 1
    have "map_of (queryOpts ?a) k1 = map_of (queryOpts this) k1"
      using assms by (simp add: map_of_addQueries_other)
    from map_of_addQueries_same[OF this] 1 assms show ?thesis
      by (simp add: map_of_addQueries_other)
  next
    case 2
    have "map_of (queryOpts ?b) k2 = map_of (queryOpts this) k2"
      using assms by (simp add: map_of_addQueries_other)
    from map_of_addQueries_same[OF this] 2 assms show ?thesis
      by (simp add: map_of_addQueries_other)
  next
    case 3
    then show ?thesis by (simp add: map_of_addQueries_other)
  qed
qed

text \<open>The document reads \<open>_queryOpts\<close> only through the four clause names.\<close>

lemma toJSON_cong:
  assumes "\<forall>clause \<in> set clauseNames. map_of (queryOpts a) clause = map_of (queryOpts b) clause"
    and "qtype a = qtype b"
  shows "toJSON a = toJSON b"
proof -
  have f: "filter (has (queryOpts a)) clauseNames = filter (has (queryOpts b)) clauseNames"
    using assms(1) by (intro filter_cong) (simp_all add: has_def)
  have "map (\<lambda>clause. (clause, recursiveToJSON (unwrapSingle (obj_get (queryOpts a) clause))))
          (filter (has (queryOpts b)) clauseNames) =
        map (\<lambda>clause. (clause, recursiveToJSON (unwrapSingle (obj_get (queryOpts b) clause))))
          (filter (has (queryOpts b)) clauseNames)"
    using assms(1) by (intro map_cong) (simp_all add: obj_get_def)
  with f assms(2) show ?thesis by (simp add: toJSON_def cleanQryOpts_map)
qed

section \<open>The shape the group setters keep\<close>

lemma groups_ok_new: "groups_ok (queryOpts BoolQuery_new)"
  by (simp add: groups_ok_def BoolQuery_new_def clauseNames_def has_def)

lemma groups_ok_iff:
  "groups_ok opts =
     (\<forall>clause \<in> set clauseNames. \<forall>v. map_of opts clause = Some v \<longrightarrow>
         isArray v \<and> list_all isQuery (elements v))"
  by (auto simp: groups_ok_def list_all_iff has_def obj_get_def)

lemma groups_ok_ensureGroup:
  "groups_ok (queryOpts this) \<Longrightarrow> groups_ok (queryOpts (ensureGroup clause this))"
  by (auto simp: groups_ok_iff map_of_ensureGroup)

lemma groups_ok_addQuery:
  assumes "groups_ok (queryOpts this)"
  shows "groups_ok (queryOpts (snd (addQuery clause v this)))"
proof -
  from addQuery_cases[of clause v this] show ?thesis
  proof
    assume "addQuery clause v this = (Some TypeError, this)"
    with assms show ?thesis by simp
  next
    assume "\<exists>qs. isQuery v \<and> obj_get (queryOpts this) clause = JArr qs \<and>
      addQuery clause v this =
        (None, this\<lparr>queryOpts := obj_set (queryOpts this) clause (JArr (qs @ [v]))\<rparr>)"
    then obtain qs where q: "isQuery v" and g: "obj_get (queryOpts this) clause = JArr qs"
      and r: "addQuery clause v this =
        (None, this\<lparr>queryOpts := obj_set (queryOpts this) clause (JArr (qs @ [v]))\<rparr>)"
      by blast
    from g have m: "map_of (queryOpts this) clause = Some (JArr qs)"
      by (auto simp: obj_get_def split: option.splits)
    show ?thesis
      unfolding r groups_ok_iff
    proof (intro ballI allI impI)
      fix c w
      assume c: "c \<in> set clauseNames"
        and w: "map_of (queryOpts (snd (None, this\<lparr>queryOpts :=
                  obj_set (queryOpts this) clause (JArr (qs @ [v]))\<rparr>))) c = Some w"
      show "isArray w \<and> list_all isQuery (elements w)"
      proof (cases "c = clause")
        case True
        with w have "w = JArr (qs @ [v])" by (simp add: map_of_obj_set)
        moreover from assms c m True have "list_all isQuery qs"
          by (auto simp: groups_ok_iff)
        ultimately show ?thesis using q by simp
      next
        case False
        with w have "map_of (queryOpts this) c = Some w" by (simp add: map_of_obj_set)
        with assms c show ?thesis by (auto simp: groups_ok_iff)
      qed
    qed
  qed
qed

lemma addQueries_groups_ok:
  assumes "groups_ok (queryOpts this)"
  shows "groups_ok (queryOpts (snd (addQueries clause v this)))"
proof (cases "isArray v")
  case True
  then obtain items where "v = JArr items" by (cases v) auto
  with assms show ?thesis by (simp add: addQueries_array groups_ok_ensureGroup)
next
  case False
  with assms show ?thesis
    by (simp add: addQueries_def groups_ok_addQuery groups_ok_ensureGroup)
qed

lemma scalar_setters_groups_ok:
  assumes "groups_ok (queryOpts this)"
  shows "groups_ok (queryOpts (disableCoord v this))"
    and "groups_ok (queryOpts (minimumShouldMatch v this))"
    and "groups_ok (queryOpts (adjustPureNegative v this))"
  using assms
  by (auto simp: groups_ok_iff disableCoord_def minimumShouldMatch_def adjustPureNegative_def
      map_of_obj_set clauseNames_def)

section \<open>Chains of single-clause calls\<close>

lemma clauses_of_addQueries_single:
  assumes "isQuery q" and "has (queryOpts this) clause \<longrightarrow> isArray (obj_get (queryOpts this) clause)"
  shows "fst (addQueries clause q this) = None"
    and "clauses_of (snd (addQueries clause q this)) clause = clauses_of this clause @ [q]"
    and "has (queryOpts (snd (addQueries clause q this))) clause"
    and "isArray (obj_get (queryOpts (snd (addQueries clause q this))) clause)"
  by (simp_all add: addQueries_single[OF assms] clauses_of_def obj_get_obj_set has_obj_set)

lemma chain_single_clauses:
  assumes "list_all isQuery cs"
    and "has (queryOpts this) clause \<longrightarrow> isArray (obj_get (queryOpts this) clause)"
  shows "fst (chain (addQueries clause) cs this) = None \<and>
         clauses_of (snd (chain (addQueries clause) cs this)) clause = clauses_of this clause @ cs"
  using assms
proof (induction cs arbitrary: this)
  case Nil
  then show ?case by simp
next
  case (Cons c cs)
  from Cons.prems have q: "isQuery c" and rest: "list_all isQuery cs" by simp_all
  note step = clauses_of_addQueries_single[OF q Cons.prems(2)]
  obtain this' where r: "addQueries clause c this = (None, this')"
    using step(1) by (cases "addQueries clause c this") auto
  from step r have "has (queryOpts this') clause \<longrightarrow> isArray (obj_get (queryOpts this') clause)"
    and "clauses_of this' clause = clauses_of this clause @ [c]" by simp_all
  with Cons.IH[OF rest, of this'] r show ?case by simp
qed

section \<open>The letter case of directions\<close>

lemma toLowerCase_directions:
  "toLowerCase ''asc'' = ''asc''" "toLowerCase ''ASC'' = ''asc''"
  "toLowerCase ''desc'' = ''desc''" "toLowerCase ''DESC'' = ''desc''"
  "toLowerCase ''invalid_direction'' = ''invalid_direction''"
  by code_simp+

lemma direction_message:
  "invalidParam ''direction'' [''asc'', ''desc''] =
     InvalidOption (''The 'direction' parameter should be one of 'asc' or 'desc'' @ quote)"
  by (simp add: invalidParam_def quote_def)

section \<open>Stores that keep what they had\<close>

lemma preserved_refl: "preserved s s"
  by (simp add: preserved_def)

lemma preserved_append: "preserved s (s @ xs)"
  by (simp add: preserved_def)

lemma preserved_nth: "preserved s s' \<Longrightarrow> a < length s \<Longrightarrow> s' ! a = s ! a"
proof -
  assume p: "preserved s s'" and a: "a < length s"
  from a have "take (length s) s' ! a = s' ! a" by simp
  with p show ?thesis by (simp add: preserved_def)
qed

lemma preserved_length: "preserved s s' \<Longrightarrow> length s \<le> length s'"
  by (simp add: preserved_def)

lemma preserved_trans:
  assumes "preserved s s1" and "preserved s1 s2"
  shows "preserved s s2"
proof -
  from assms have l: "length s \<le> length s1" "length s1 \<le> length s2"
    and t: "take (length s) s1 = s" "take (length s1) s2 = s1"
    by (simp_all add: preserved_def)
  from l(1) have "take (length s) (take (length s1) s2) = take (length s) s2"
    by (simp add: min_def)
  with t l show ?thesis by (simp add: preserved_def)
qed

lemma preserved_update:
  "preserved s s' \<Longrightarrow> length s \<le> a \<Longrightarrow> preserved s (s'[a := c])"
  by (simp add: preserved_def)

lemma preserved_cell_at:
  assumes "preserved s s'" and "cell_at s a = Some c"
  shows "cell_at s' a = Some c"
proof -
  from assms(2) have a: "a < length s" and c: "s ! a = c"
    by (auto simp: cell_at_def split: if_splits)
  from a assms(1) have "a < length s'" "s' ! a = s ! a"
    by (auto simp: preserved_nth dest: preserved_length)
  with c show ?thesis by (simp add: cell_at_def)
qed

lemma cell_at_append_new: "cell_at (s @ [c]) (length s) = Some c"
  by (simp add: cell_at_def)

section \<open>Reading lists\<close>

lemma collect_imp_list_all2:
  "collect f xs = Some ys \<Longrightarrow> list_all2 (\<lambda>x y. f x = Some y) xs ys"
  by (induction xs arbitrary: ys) (auto split: option.splits)

lemma list_all2_imp_collect:
  "list_all2 (\<lambda>x y. f x = Some y) xs ys \<Longrightarrow> collect f xs = Some ys"
  by (induction xs ys rule: list_all2_induct) auto

lemma collect_list_all2:
  "collect f xs = Some ys \<longleftrightarrow> list_all2 (\<lambda>x y. f x = Some y) xs ys"
  using collect_imp_list_all2 list_all2_imp_collect by blast

section \<open>Reading a tree from the store\<close>

lemma tree_from_prim: "\<not> is_ref v \<Longrightarrow> tree_from (Suc n) lo s v = Some (prim_val v)"
  by (simp add: tree_from.simps(2))

lemma tree_from_ref:
  "cell_at s a = Some c \<Longrightarrow> lo \<le> a \<Longrightarrow>
     tree_from (Suc n) lo s (SRef a) = tree_of_cell (tree_from n lo s) c"
  by (simp add: tree_from.simps(2))

lemma tree_from_ref_defined:
  assumes "tree_from n lo s (SRef a) = Some t"
  obtains m c where "n = Suc m" and "lo \<le> a" and "cell_at s a = Some c"
    and "tree_of_cell (tree_from m lo s) c = Some t"
proof (cases n)
  case 0
  with assms show ?thesis by simp
next
  case (Suc m)
  with assms have lo: "lo \<le> a" and "cell_at s a \<noteq> None"
    by (auto simp: tree_from.simps(2) split: if_splits option.splits)
  then obtain c where c: "cell_at s a = Some c" by blast
  with assms Suc lo have "tree_of_cell (tree_from m lo s) c = Some t"
    by (simp add: tree_from_ref)
  with Suc lo c show ?thesis by (rule that)
qed

lemma tree_of_cell_Array:
  "tree_of_cell rd (Array xs) = Some t \<longleftrightarrow>
     (\<exists>ys. list_all2 (\<lambda>x y. rd x = Some y) xs ys \<and> t = JArr ys)"
  by (auto simp: tree_of_cell_def collect_list_all2)

lemma tree_of_cell_Object:
  "tree_of_cell rd (Object kvs) = Some t \<longleftrightarrow>
     (\<exists>ys. list_all2 (\<lambda>x y. rd x = Some y) (map snd kvs) ys \<and> t = JObj (zip (map fst kvs) ys))"
  by (auto simp: tree_of_cell_def collect_list_all2)

lemma tree_of_cell_Instance:
  "tree_of_cell rd (Instance cls tag opts_at) = Some t \<longleftrightarrow>
     (\<exists>kvs. rd (SRef opts_at) = Some (JObj kvs) \<and> t = JQuery cls tag kvs)"
  by (auto simp: tree_of_cell_def split: option.splits val.splits)

lemma tree_of_cell_mono:
  assumes "tree_of_cell rd c = Some t" and "\<And>x y. rd x = Some y \<Longrightarrow> rd' x = Some y"
  shows "tree_of_cell rd' c = Some t"
proof (cases c)
  case (Array xs)
  with assms(1) obtain ys where ys: "list_all2 (\<lambda>x y. rd x = Some y) xs ys" and t: "t = JArr ys"
    by (auto simp: tree_of_cell_Array)
  from ys have "list_all2 (\<lambda>x y. rd' x = Some y) xs ys"
    by (rule list_all2_mono) (rule assms(2))
  with Array t show ?thesis by (auto simp: tree_of_cell_Array)
next
  case (Object kvs)
  with assms(1) obtain ys where ys: "list_all2 (\<lambda>x y. rd x = Some y) (map snd kvs) ys"
    and t: "t = JObj (zip (map fst kvs) ys)"
    by (auto simp: tree_of_cell_Object)
  from ys have "list_all2 (\<lambda>x y. rd' x = Some y) (map snd kvs) ys"
    by (rule list_all2_mono) (rule assms(2))
  with Object t show ?thesis by (auto simp: tree_of_cell_Object)
next
  case (Instance cls tag opts_at)
  with assms(1) obtain kvs where k: "rd (SRef opts_at) = Some (JObj kvs)"
    and t: "t = JQuery cls tag kvs"
    by (auto simp: tree_of_cell_Instance)
  from k have "rd' (SRef opts_at) = Some (JObj kvs)" by (rule assms(2))
  with Instance t show ?thesis by (auto simp: tree_of_cell_Instance)
qed

text \<open>
  A tree read with some fuel, above some address, is read the same with more fuel, above a
  lower address, and from a store that agrees on the addresses it may visit.
\<close>

lemma tree_from_change:
  assumes "tree_from n lo s v = Some t"
    and "n \<le> n'" and "lo' \<le> lo" and "length s \<le> length s2"
    and agree: "\<And>a. lo \<le> a \<Longrightarrow> a < length s \<Longrightarrow> s2 ! a = s ! a"
  shows "tree_from n' lo' s2 v = Some t"
  using assms(1,2)
proof (induction n arbitrary: n' v t)
  case 0
  then show ?case by simp
next
  case (Suc n)
  from Suc.prems(2) obtain m where n': "n' = Suc m" and nm: "n \<le> m"
    by (cases n') auto
  show ?case
  proof (cases "is_ref v")
    case False
    with Suc.prems(1) n' show ?thesis by (simp add: tree_from_prim)
  next
    case True
    then obtain a where v: "v = SRef a" by (cases v) auto
    from Suc.prems(1)[unfolded v] obtain c where lo: "lo \<le> a" and c: "cell_at s a = Some c"
      and tc: "tree_of_cell (tree_from n lo s) c = Some t"
      by (rule tree_from_ref_defined) simp
    from c have a: "a < length s" by (auto simp: cell_at_def split: if_splits)
    with agree[OF lo] assms(4) c have c2: "cell_at s2 a = Some c"
      by (auto simp: cell_at_def)
    from tc have "tree_of_cell (tree_from m lo' s2) c = Some t"
      by (rule tree_of_cell_mono) (rule Suc.IH[OF _ nm])
    with c2 lo assms(3) v n' show ?thesis by (simp add: tree_from_ref)
  qed
qed

lemma tree_from_preserved:
  assumes "tree_from n lo s v = Some t" and "preserved s s2" and "n \<le> n'" and "lo' \<le> lo"
  shows "tree_from n' lo' s2 v = Some t"
proof (rule tree_from_change[OF assms(1) assms(3) assms(4)])
  show "length s \<le> length s2" using assms(2) by (rule preserved_length)
  show "s2 ! a = s ! a" if "a < length s" for a
    using assms(2) that by (rule preserved_nth)
qed

lemma tree_from_fuel:
  "tree_from n lo s v = Some t \<Longrightarrow> n \<le> n' \<Longrightarrow> tree_from n' lo s v = Some t"
  by (erule tree_from_preserved) (simp_all add: preserved_refl)

section \<open>The single clause of a group, in the store and in the tree\<close>

lemma unwrapSingle_string: "unwrapSingle (JStr x) = JStr x"
  by (cases x) (auto simp: unwrapSingle_def)

lemma unwrapSingle_not_array:
  "\<not> isArray t \<Longrightarrow> unwrapSingle t = t"
proof (cases t)
  case (JStr x)
  then show ?thesis by (simp add: unwrapSingle_string)
qed (simp_all add: unwrapSingle_def)

lemma unwrapSingleS_not_ref: "\<not> is_ref v \<Longrightarrow> unwrapSingleS s v = v"
  by (cases v) (simp_all add: unwrapSingleS_def)

lemma prim_val_not_array: "\<not> isArray (prim_val v)"
  by (cases v) simp_all

lemma unwrapSingleS_tree:
  assumes "tree_from n 0 s v = Some t"
  shows "tree_from n 0 s (unwrapSingleS s v) = Some (unwrapSingle t)"
proof (cases "is_ref v")
  case False
  from assms obtain m where n: "n = Suc m" by (cases n) auto
  with assms False have "t = prim_val v" by (simp add: tree_from_prim)
  with assms False show ?thesis
    by (simp add: unwrapSingleS_not_ref unwrapSingle_not_array prim_val_not_array)
next
  case True
  then obtain a where v: "v = SRef a" by (cases v) auto
  from assms[unfolded v] obtain m c where n: "n = Suc m" and c: "cell_at s a = Some c"
    and tc: "tree_of_cell (tree_from m 0 s) c = Some t"
    by (rule tree_from_ref_defined)
  show ?thesis
  proof (cases c)
    case (Array xs)
    with tc obtain ys
      where ys: "list_all2 (\<lambda>x y. tree_from m 0 s x = Some y) xs ys" and t: "t = JArr ys"
      by (auto simp: tree_of_cell_Array)
    show ?thesis
    proof (cases "\<exists>q. xs = [q]")
      case True
      then obtain q where q: "xs = [q]" by blast
      with ys obtain y where y: "ys = [y]" and "tree_from m 0 s q = Some y"
        by (auto simp: list_all2_Cons1)
      then have "tree_from n 0 s q = Some y"
        using n by (auto elim: tree_from_fuel)
      with v Array c q t y show ?thesis
        by (simp add: unwrapSingleS_def unwrapSingle_def)
    next
      case False
      then have "unwrapSingleS s v = v"
        using v Array c by (auto simp: unwrapSingleS_def split: list.splits)
      moreover from False ys have "length ys \<noteq> 1"
        by (cases xs; cases ys) (auto simp: list_all2_Cons1)
      then have "unwrapSingle t = t" by (simp add: unwrapSingle_def t)
      ultimately show ?thesis using assms by simp
    qed
  next
    case (Object kvs)
    with tc have "\<not> isArray t" by (auto simp: tree_of_cell_Object)
    moreover from v c Object have "unwrapSingleS s v = v" by (simp add: unwrapSingleS_def)
    ultimately show ?thesis using assms by (simp add: unwrapSingle_not_array)
  next
    case (Instance cls tag opts_at)
    with tc have "\<not> isArray t" by (auto simp: tree_of_cell_Instance)
    moreover from v c Instance have "unwrapSingleS s v = v" by (simp add: unwrapSingleS_def)
    ultimately show ?thesis using assms by (simp add: unwrapSingle_not_array)
  qed
qed

section \<open>The serializer on trees, on the shapes read from the store\<close>

lemma recursiveToJSON_zip:
  "length ks = length vs \<Longrightarrow>
     map (\<lambda>(k, v). (k, recursiveToJSON v)) (zip ks vs) = zip ks (map recursiveToJSON vs)"
  by (induction ks vs rule: list_induct2) auto

lemma recursiveToJSON_prim: "recursiveToJSON (prim_val v) = prim_val v"
  by (cases v) simp_all

lemma recursiveToJSON_other_query:
  "cls \<noteq> BoolQuery \<Longrightarrow>
     recursiveToJSON (JQuery cls tag opts) = JObj [(tag, recursiveToJSON (JObj opts))]"
  by (cases cls) simp_all

lemma recursiveToJSON_bool_query:
  "recursiveToJSON (JQuery BoolQuery tag opts) =
     JObj [(tag, JObj (map (\<lambda>clause. (clause, recursiveToJSON (unwrapSingle (obj_get opts clause))))
                        (filter (has opts) clauseNames)))]"
  using cleanQryOpts_map[of "\<lparr>klass = BoolQuery, qtype = tag, queryOpts = opts\<rparr>"]
  by (simp add: cleanQryOpts_def)

section \<open>Serializing the elements of a list\<close>

lemma simulatesD:
  assumes "simulates rec m k" and "tree_from m 0 s v = Some t"
  obtains d s' where "rec s v = Some (d, s')" and "preserved s s'"
    and "tree_from k (length s) s' d = Some (recursiveToJSON t)"
  using assms unfolding simulates_def by blast

lemma mapS_simulates:
  assumes sim: "simulates rec m k"
    and "list_all2 (\<lambda>x tx. tree_from m 0 s x = Some tx) xs txs"
  shows "\<exists>ds s'. mapS rec xs s = Some (ds, s') \<and> preserved s s' \<and>
           list_all2 (\<lambda>d tx. tree_from k (length s) s' d = Some (recursiveToJSON tx)) ds txs"
  using assms(2)
proof (induction xs arbitrary: s txs)
  case Nil
  then show ?case by (simp add: preserved_refl)
next
  case (Cons x xs)
  from Cons.prems obtain tx txs' where txs: "txs = tx # txs'"
    and x: "tree_from m 0 s x = Some tx"
    and rest: "list_all2 (\<lambda>x tx. tree_from m 0 s x = Some tx) xs txs'"
    by (auto simp: list_all2_Cons1)
  from sim x obtain d s1 where r: "rec s x = Some (d, s1)" and p1: "preserved s s1"
    and d: "tree_from k (length s) s1 d = Some (recursiveToJSON tx)"
    by (rule simulatesD)
  from rest have "list_all2 (\<lambda>x tx. tree_from m 0 s1 x = Some tx) xs txs'"
  proof (rule list_all2_mono)
    fix y ty assume "tree_from m 0 s y = Some ty"
    then show "tree_from m 0 s1 y = Some ty"
      using p1 by (rule tree_from_preserved) simp_all
  qed
  from Cons.IH[OF this] obtain ds s2 where m: "mapS rec xs s1 = Some (ds, s2)"
    and p2: "preserved s1 s2"
    and ds: "list_all2 (\<lambda>d tx. tree_from k (length s1) s2 d = Some (recursiveToJSON tx)) ds txs'"
    by blast
  from p1 have l: "length s \<le> length s1" by (rule preserved_length)
  from d p2 have d': "tree_from k (length s) s2 d = Some (recursiveToJSON tx)"
    by (rule tree_from_preserved) simp_all
  from ds have ds': "list_all2 (\<lambda>d tx. tree_from k (length s) s2 d = Some (recursiveToJSON tx)) ds txs'"
  proof (rule list_all2_mono)
    fix e te assume "tree_from k (length s1) s2 e = Some (recursiveToJSON te)"
    then show "tree_from k (length s) s2 e = Some (recursiveToJSON te)"
      using preserved_refl _ l by (rule tree_from_preserved) simp
  qed
  from r m have "mapS rec (x # xs) s = Some (d # ds, s2)" by simp
  moreover from p1 p2 have "preserved s s2" by (rule preserved_trans)
  ultimately show ?case using d' ds' txs by auto
qed

section \<open>Serializing an array, a plain object, a query with the default toJSON\<close>

lemma tree_from_new_cell:
  assumes "tree_of_cell (tree_from k lo (s1 @ [c])) c = Some t" and "lo \<le> length s1"
  shows "tree_from (Suc k) lo (s1 @ [c]) (SRef (length s1)) = Some t"
  using assms by (simp add: tree_from_ref[OF cell_at_append_new])

lemma serialize_Array:
  assumes sim: "simulates rec m k"
    and t: "tree_of_cell (tree_from m 0 s) (Array xs) = Some t"
  shows "\<exists>d s'. serialize_cell rec a (Array xs) s = Some (d, s') \<and> preserved s s' \<and>
           tree_from (Suc k) (length s) s' d = Some (recursiveToJSON t)"
proof -
  from t obtain ys where ys: "list_all2 (\<lambda>x y. tree_from m 0 s x = Some y) xs ys"
    and tt: "t = JArr ys"
    by (auto simp: tree_of_cell_Array)
  from mapS_simulates[OF sim ys] obtain ds s1 where m: "mapS rec xs s = Some (ds, s1)"
    and p: "preserved s s1"
    and ds: "list_all2 (\<lambda>d tx. tree_from k (length s) s1 d = Some (recursiveToJSON tx)) ds ys"
    by blast
  let ?s' = "s1 @ [Array ds]"
  from ds have "list_all2 (\<lambda>d tx. tree_from k (length s) ?s' d = Some (recursiveToJSON tx)) ds ys"
  proof (rule list_all2_mono)
    fix e te assume "tree_from k (length s) s1 e = Some (recursiveToJSON te)"
    then show "tree_from k (length s) ?s' e = Some (recursiveToJSON te)"
      using preserved_append by (rule tree_from_preserved) simp_all
  qed
  then have "list_all2 (\<lambda>d y. tree_from k (length s) ?s' d = Some y) ds (map recursiveToJSON ys)"
    by (simp add: list_all2_map2)
  then have "tree_of_cell (tree_from k (length s) ?s') (Array ds) = Some (recursiveToJSON t)"
    by (auto simp: tree_of_cell_Array tt)
  then have "tree_from (Suc k) (length s) ?s' (SRef (length s1)) = Some (recursiveToJSON t)"
    using preserved_length[OF p] by (rule tree_from_new_cell)
  moreover from p preserved_append have "preserved s ?s'" by (rule preserved_trans)
  moreover from m have "serialize_cell rec a (Array xs) s = Some (SRef (length s1), ?s')"
    by (simp add: serialize_cell_def)
  ultimately show ?thesis by blast
qed

lemma serialize_Object:
  assumes sim: "simulates rec m k"
    and t: "tree_of_cell (tree_from m 0 s) (Object kvs) = Some t"
  shows "\<exists>d s'. serialize_cell rec a (Object kvs) s = Some (d, s') \<and> preserved s s' \<and>
           tree_from (Suc k) (length s) s' d = Some (recursiveToJSON t)"
proof -
  from t obtain ys where ys: "list_all2 (\<lambda>x y. tree_from m 0 s x = Some y) (map snd kvs) ys"
    and tt: "t = JObj (zip (map fst kvs) ys)"
    by (auto simp: tree_of_cell_Object)
  from mapS_simulates[OF sim ys] obtain ds s1
    where m: "mapS rec (map snd kvs) s = Some (ds, s1)"
    and p: "preserved s s1"
    and ds: "list_all2 (\<lambda>d tx. tree_from k (length s) s1 d = Some (recursiveToJSON tx)) ds ys"
    by blast
  from ys have ly: "length ys = length kvs" by (auto dest: list_all2_lengthD)
  from ds ly have ld: "length ds = length kvs" by (auto dest: list_all2_lengthD)
  let ?c = "Object (zip (map fst kvs) ds)"
  let ?s' = "s1 @ [?c]"
  from ds have "list_all2 (\<lambda>d tx. tree_from k (length s) ?s' d = Some (recursiveToJSON tx)) ds ys"
  proof (rule list_all2_mono)
    fix e te assume "tree_from k (length s) s1 e = Some (recursiveToJSON te)"
    then show "tree_from k (length s) ?s' e = Some (recursiveToJSON te)"
      using preserved_append by (rule tree_from_preserved) simp_all
  qed
  then have "list_all2 (\<lambda>d y. tree_from k (length s) ?s' d = Some y) ds (map recursiveToJSON ys)"
    by (simp add: list_all2_map2)
  moreover have "recursiveToJSON t = JObj (zip (map fst kvs) (map recursiveToJSON ys))"
    using ly by (simp add: tt recursiveToJSON_zip)
  ultimately have "tree_of_cell (tree_from k (length s) ?s') ?c = Some (recursiveToJSON t)"
    using ld by (auto simp: tree_of_cell_Object)
  then have "tree_from (Suc k) (length s) ?s' (SRef (length s1)) = Some (recursiveToJSON t)"
    using preserved_length[OF p] by (rule tree_from_new_cell)
  moreover from p preserved_append have "preserved s ?s'" by (rule preserved_trans)
  moreover from m have "serialize_cell rec a (Object kvs) s = Some (SRef (length s1), ?s')"
    by (simp add: serialize_cell_def)
  ultimately show ?thesis by blast
qed

lemma serialize_other_query:
  assumes sim: "simulates rec m k"
    and c: "cell_at s a = Some (Instance cls tag opts_at)" and cls: "cls \<noteq> BoolQuery"
    and t: "tree_of_cell (tree_from m 0 s) (Instance cls tag opts_at) = Some t"
  shows "\<exists>d s'. serialize_cell rec a (Instance cls tag opts_at) s = Some (d, s') \<and>
           preserved s s' \<and> tree_from (Suc k) (length s) s' d = Some (recursiveToJSON t)"
proof -
  from t obtain kvs where o: "tree_from m 0 s (SRef opts_at) = Some (JObj kvs)"
    and tt: "t = JQuery cls tag kvs"
    by (auto simp: tree_of_cell_Instance)
  from sim o obtain d s1 where r: "rec s (SRef opts_at) = Some (d, s1)"
    and p: "preserved s s1"
    and d: "tree_from k (length s) s1 d = Some (recursiveToJSON (JObj kvs))"
    by (rule simulatesD)
  let ?c = "Object [(tag, d)]"
  let ?s' = "s1 @ [?c]"
  from d preserved_append have "tree_from k (length s) ?s' d = Some (recursiveToJSON (JObj kvs))"
    by (rule tree_from_preserved) simp_all
  then have "tree_of_cell (tree_from k (length s) ?s') ?c = Some (recursiveToJSON t)"
    using cls by (simp add: tree_of_cell_def tt recursiveToJSON_other_query)
  then have "tree_from (Suc k) (length s) ?s' (SRef (length s1)) = Some (recursiveToJSON t)"
    using preserved_length[OF p] by (rule tree_from_new_cell)
  moreover from p preserved_append have "preserved s ?s'" by (rule preserved_trans)
  moreover from r c cls
  have "serialize_cell rec a (Instance cls tag opts_at) s = Some (SRef (length s1), ?s')"
    by (simp add: serialize_cell_def Query_toJSON_def)
  ultimately show ?thesis by blast
qed

section \<open>The options of a query, in the store and in the tree\<close>

lemma map_of_zip_related:
  assumes "list_all2 R (map snd kvs) tvs"
  shows "(map_of kvs c = None \<longrightarrow> map_of (zip (map fst kvs) tvs) c = None) \<and>
         (\<forall>v. map_of kvs c = Some v \<longrightarrow> (\<exists>tv. map_of (zip (map fst kvs) tvs) c = Some tv \<and> R v tv))"
  using assms
proof (induction kvs arbitrary: tvs)
  case Nil
  then show ?case by simp
next
  case (Cons kv kvs)
  from Cons.prems obtain tv tvs' where tvs: "tvs = tv # tvs'" and r: "R (snd kv) tv"
    and rest: "list_all2 R (map snd kvs) tvs'"
    by (auto simp: list_all2_Cons1)
  from Cons.IH[OF rest] tvs r show ?case by (cases kv) auto
qed

lemma prop_has_tree:
  assumes "list_all2 R (map snd opts) tvs"
  shows "has (zip (map fst opts) tvs) c = prop_has opts c"
  using map_of_zip_related[OF assms, of c]
  by (cases "map_of opts c") (auto simp: has_def prop_has_def)

lemma prop_get_tree:
  assumes "list_all2 R (map snd opts) tvs" and "prop_has opts c"
  shows "R (prop_get opts c) (obj_get (zip (map fst opts) tvs) c)"
  using map_of_zip_related[OF assms(1), of c] assms(2)
  by (cases "map_of opts c") (auto simp: prop_has_def prop_get_def obj_get_def)

lemma prop_set_fresh:
  "key \<notin> fst ` set object \<Longrightarrow> prop_set object key v = object @ [(key, v)]"
  by (induction object) auto

section \<open>The reduce of toJSON on the store\<close>

lemma reduceS_simulates:
  assumes sim: "simulates rec m k"
    and inst: "cell_at s0 this = Some (Instance cls tag opts_at)"
    and opts: "cell_at s0 opts_at = Some (Object opts)"
    and fresh: "length s0 \<le> acc"
    and trees: "\<And>c. c \<in> set names0 \<Longrightarrow> tree_from m 0 s0 (prop_get opts c) = Some (tv c)"
  shows "preserved s0 s \<Longrightarrow> cell_at s acc = Some (Object done) \<Longrightarrow> distinct names \<Longrightarrow>
     set names \<subseteq> set names0 \<Longrightarrow> set names \<inter> fst ` set done = {} \<Longrightarrow>
     \<exists>s' ds. reduceS (toJSON_callback rec this acc) names s = Some s' \<and> preserved s0 s'
       \<and> length s \<le> length s'
       \<and> (\<forall>a. acc < a \<longrightarrow> a < length s \<longrightarrow> s' ! a = s ! a)
       \<and> cell_at s' acc = Some (Object (done @ zip names ds))
       \<and> list_all2 (\<lambda>d c. tree_from k (Suc acc) s' d = Some (recursiveToJSON (unwrapSingle (tv c))))
            ds names"
proof (induction names arbitrary: s "done")
  case Nil
  then show ?case by (auto intro: exI[of _ "[]"])
next
  case (Cons c names)
  note p0 = Cons.prems(1) and acc = Cons.prems(2)
  from acc have accl: "acc < length s" by (auto simp: cell_at_def split: if_splits)
  from p0 inst have this_s: "cell_at s this = Some (Instance cls tag opts_at)"
    by (rule preserved_cell_at)
  from p0 opts have opts_s: "cell_at s opts_at = Some (Object opts)"
    by (rule preserved_cell_at)
  from Cons.prems(4) have "c \<in> set names0" by simp
  then have "tree_from m 0 s0 (prop_get opts c) = Some (tv c)" by (rule trees)
  then have "tree_from m 0 s (prop_get opts c) = Some (tv c)"
    using p0 by (rule tree_from_preserved) simp_all
  then have arg: "tree_from m 0 s (unwrapSingleS s (prop_get opts c)) = Some (unwrapSingle (tv c))"
    by (rule unwrapSingleS_tree)
  from sim arg obtain d s1
    where r: "rec s (unwrapSingleS s (prop_get opts c)) = Some (d, s1)"
      and p1: "preserved s s1"
      and d: "tree_from k (length s) s1 d = Some (recursiveToJSON (unwrapSingle (tv c)))"
    by (rule simulatesD)
  from p1 have l1: "length s \<le> length s1" by (rule preserved_length)
  from p1 acc have acc1: "cell_at s1 acc = Some (Object done)" by (rule preserved_cell_at)
  from Cons.prems(5) have cfresh: "c \<notin> fst ` set done" by auto
  let ?done2 = "done @ [(c, d)]"
  let ?s2 = "s1[acc := Object ?done2]"
  from this_s opts_s r acc1 cfresh
  have cb: "toJSON_callback rec this acc c s = Some ?s2"
    by (simp add: toJSON_callback_def prop_set_fresh)
  have p2: "preserved s0 ?s2"
    using preserved_trans[OF p0 p1] fresh by (rule preserved_update)
  have acc2: "cell_at ?s2 acc = Some (Object ?done2)"
    using accl l1 by (simp add: cell_at_def)
  from Cons.prems(3) have dn: "distinct names" and cn: "c \<notin> set names" by simp_all
  from Cons.prems(4) have sub: "set names \<subseteq> set names0" by simp
  from Cons.prems(5) cn have disj: "set names \<inter> fst ` set ?done2 = {}" by auto
  from Cons.IH[OF p2 acc2 dn sub disj] obtain s' ds
    where red: "reduceS (toJSON_callback rec this acc) names ?s2 = Some s'"
      and p': "preserved s0 s'"
      and l': "length ?s2 \<le> length s'"
      and agree: "\<forall>a. acc < a \<longrightarrow> a < length ?s2 \<longrightarrow> s' ! a = ?s2 ! a"
      and cell: "cell_at s' acc = Some (Object (?done2 @ zip names ds))"
      and ds: "list_all2 (\<lambda>d c. tree_from k (Suc acc) s' d =
                 Some (recursiveToJSON (unwrapSingle (tv c)))) ds names"
    by blast
  have agree1: "s' ! a = s1 ! a" if "acc < a" and "a < length s1" for a
    using agree that by simp
  have d': "tree_from k (Suc acc) s' d = Some (recursiveToJSON (unwrapSingle (tv c)))"
  proof (rule tree_from_change[OF d])
    show "k \<le> k" by simp
    show "Suc acc \<le> length s" using accl by simp
    show "length s1 \<le> length s'" using l' by simp
    show "s' ! a = s1 ! a" if "length s \<le> a" and "a < length s1" for a
      using that accl by (intro agree1) simp_all
  qed
  have "reduceS (toJSON_callback rec this acc) (c # names) s = Some s'"
    using cb red by simp
  moreover have "length s \<le> length s'" using l1 l' by simp
  moreover have "\<forall>a. acc < a \<longrightarrow> a < length s \<longrightarrow> s' ! a = s ! a"
  proof (intro allI impI)
    fix a assume a: "acc < a" "a < length s"
    with l1 have "s' ! a = s1 ! a" by (intro agree1) simp_all
    also from p1 a(2) have "s1 ! a = s ! a" by (rule preserved_nth)
    finally show "s' ! a = s ! a" .
  qed
  moreover have "cell_at s' acc = Some (Object (done @ zip (c # names) (d # ds)))"
    using cell by simp
  moreover have "list_all2 (\<lambda>d c. tree_from k (Suc acc) s' d =
                 Some (recursiveToJSON (unwrapSingle (tv c)))) (d # ds) (c # names)"
    using d' ds by simp
  ultimately show ?case using p' by blast
qed

section \<open>Serializing a bool query on the store\<close>

lemma zip_map_self: "zip xs (map f xs) = map (\<lambda>x. (x, f x)) xs"
  by (induction xs) auto

lemma serialize_bool_query:
  assumes sim: "simulates rec m k"
    and c: "cell_at s a = Some (Instance BoolQuery tag opts_at)"
    and t: "tree_of_cell (tree_from m 0 s) (Instance BoolQuery tag opts_at) = Some t"
  shows "\<exists>d s'. serialize_cell rec a (Instance BoolQuery tag opts_at) s = Some (d, s') \<and>
           preserved s s' \<and> tree_from (Suc (Suc k)) (length s) s' d = Some (recursiveToJSON t)"
proof -
  from t obtain tkvs where o: "tree_from m 0 s (SRef opts_at) = Some (JObj tkvs)"
    and tt: "t = JQuery BoolQuery tag tkvs"
    by (auto simp: tree_of_cell_Instance)
  from o obtain m' co where m: "m = Suc m'" and co: "cell_at s opts_at = Some co"
    and tco: "tree_of_cell (tree_from m' 0 s) co = Some (JObj tkvs)"
    by (rule tree_from_ref_defined)
  from tco obtain opts where cobj: "co = Object opts"
    by (cases co) (auto simp: tree_of_cell_Array tree_of_cell_Instance)
  with tco obtain tvs
    where tvs: "list_all2 (\<lambda>x y. tree_from m' 0 s x = Some y) (map snd opts) tvs"
      and tk: "tkvs = zip (map fst opts) tvs"
    by (auto simp: tree_of_cell_Object)
  define names where "names = filter (prop_has opts) clauseNames"
  define f where "f = (\<lambda>clause. recursiveToJSON (unwrapSingle (obj_get tkvs clause)))"
  have names_tree: "names = filter (has tkvs) clauseNames"
    unfolding names_def tk by (rule filter_cong) (simp_all add: prop_has_tree[OF tvs])
  have trees: "tree_from m 0 s (prop_get opts clause) = Some (obj_get tkvs clause)"
    if "clause \<in> set names" for clause
  proof -
    from that have "prop_has opts clause" by (simp add: names_def)
    with tvs have "tree_from m' 0 s (prop_get opts clause) = Some (obj_get tkvs clause)"
      unfolding tk by (rule prop_get_tree)
    then show ?thesis using m by (auto elim: tree_from_fuel)
  qed
  let ?acc = "Suc (Suc (length s))"
  let ?s3 = "s @ [Array (map SStr clauseNames)] @ [Array (map SStr names)] @ [Object []]"
  have p3: "preserved s ?s3" by (rule preserved_append)
  have acc3: "cell_at ?s3 ?acc = Some (Object [])"
    by (simp add: cell_at_def nth_append)
  have dn: "distinct names" by (simp add: names_def distinct_clauseNames)
  from reduceS_simulates[OF sim c co[unfolded cobj] _ trees p3 acc3 dn, of names]
  obtain s4 ds
    where red: "reduceS (toJSON_callback rec a ?acc) names ?s3 = Some s4"
      and p4: "preserved s s4"
      and cell4: "cell_at s4 ?acc = Some (Object (zip names ds))"
      and ds: "list_all2 (\<lambda>d clause. tree_from k (Suc ?acc) s4 d =
                 Some (recursiveToJSON (unwrapSingle (obj_get tkvs clause)))) ds names"
    by auto
  let ?doc = "Object [(tag, SRef ?acc)]"
  let ?s5 = "s4 @ [?doc]"
  have p45: "preserved s4 ?s5" by (rule preserved_append)
  from p4 c have c4: "cell_at s4 a = Some (Instance BoolQuery tag opts_at)"
    by (rule preserved_cell_at)
  have run: "serialize_cell rec a (Instance BoolQuery tag opts_at) s = Some (SRef (length s4), ?s5)"
    using c co cobj red c4
    by (simp add: serialize_cell_def BoolQuery_toJSON_def Let_def names_def)
  from ds have "list_all2 (\<lambda>d clause. tree_from k (length s) ?s5 d = Some (f clause)) ds names"
  proof (rule list_all2_mono)
    fix e clause
    assume "tree_from k (Suc ?acc) s4 e = Some (recursiveToJSON (unwrapSingle (obj_get tkvs clause)))"
    then show "tree_from k (length s) ?s5 e = Some (f clause)"
      unfolding f_def using p45 by (rule tree_from_preserved) simp_all
  qed
  then have dsf: "list_all2 (\<lambda>d y. tree_from k (length s) ?s5 d = Some y) ds (map f names)"
    by (simp add: list_all2_map2)
  then have ld: "length ds = length names" by (auto dest: list_all2_lengthD)
  from p45 cell4 have cell5: "cell_at ?s5 ?acc = Some (Object (zip names ds))"
    by (rule preserved_cell_at)
  have "tree_of_cell (tree_from k (length s) ?s5) (Object (zip names ds)) =
          Some (JObj (zip names (map f names)))"
    using dsf ld by (auto simp: tree_of_cell_Object)
  then have acc_tree: "tree_from (Suc k) (length s) ?s5 (SRef ?acc) =
          Some (JObj (map (\<lambda>clause. (clause, f clause)) names))"
    using cell5 by (simp add: tree_from_ref zip_map_self)
  have "recursiveToJSON t = JObj [(tag, JObj (map (\<lambda>clause. (clause, f clause)) names))]"
    by (simp only: tt recursiveToJSON_bool_query names_tree f_def)
  with acc_tree
  have "tree_of_cell (tree_from (Suc k) (length s) ?s5) ?doc = Some (recursiveToJSON t)"
    by (simp add: tree_of_cell_def)
  then have "tree_from (Suc (Suc k)) (length s) ?s5 (SRef (length s4)) = Some (recursiveToJSON t)"
    using preserved_length[OF p4] by (rule tree_from_new_cell)
  moreover from p4 p45 have "preserved s ?s5" by (rule preserved_trans)
  ultimately show ?thesis using run by blast
qed

section \<open>The serializer on the store computes the serializer on trees\<close>

lemma more_fuel:
  assumes "\<exists>d s'. r = Some (d, s') \<and> preserved s s' \<and> tree_from j lo s' d = Some y"
    and "j \<le> j'"
  shows "\<exists>d s'. r = Some (d, s') \<and> preserved s s' \<and> tree_from j' lo s' d = Some y"
proof -
  from assms(1) obtain d s' where r: "r = Some (d, s')" and p: "preserved s s'"
    and t: "tree_from j lo s' d = Some y"
    by blast
  from t assms(2) have "tree_from j' lo s' d = Some y" by (rule tree_from_fuel)
  with r p show ?thesis by blast
qed

lemma recursiveToJSON_store_simulates: "simulates (recursiveToJSON_store n) n (2 * n)"
proof (induction n)
  case 0
  show ?case by (simp add: simulates_def)
next
  case (Suc n)
  show ?case
    unfolding simulates_def
  proof (intro allI impI)
    fix s v t
    assume tr: "tree_from (Suc n) 0 s v = Some t"
    show "\<exists>d s'. recursiveToJSON_store (Suc n) s v = Some (d, s') \<and> preserved s s' \<and>
            tree_from (2 * Suc n) (length s) s' d = Some (recursiveToJSON t)"
    proof (cases "is_ref v")
      case False
      with tr have t: "t = prim_val v" by (simp add: tree_from_prim)
      from False have "recursiveToJSON_store (Suc n) s v = Some (v, s)"
        by (simp add: recursiveToJSON_store.simps(2))
      moreover from False have "tree_from (2 * Suc n) (length s) s v = Some (recursiveToJSON t)"
        by (simp add: tree_from_prim t recursiveToJSON_prim)
      ultimately show ?thesis using preserved_refl by blast
    next
      case True
      then obtain a where v: "v = SRef a" by (cases v) auto
      from tr[unfolded v] obtain c where c: "cell_at s a = Some c"
        and tc: "tree_of_cell (tree_from n 0 s) c = Some t"
        by (rule tree_from_ref_defined) simp
      from c have run: "recursiveToJSON_store (Suc n) s v =
                          serialize_cell (recursiveToJSON_store n) a c s"
        by (simp add: recursiveToJSON_store.simps(2) v)
      have "\<exists>d s'. serialize_cell (recursiveToJSON_store n) a c s = Some (d, s') \<and>
              preserved s s' \<and>
              tree_from (2 * Suc n) (length s) s' d = Some (recursiveToJSON t)"
      proof (cases c)
        case (Array xs)
        from serialize_Array[OF Suc.IH tc[unfolded Array], of a]
        show ?thesis unfolding Array by (rule more_fuel) simp
      next
        case (Object kvs)
        from serialize_Object[OF Suc.IH tc[unfolded Object], of a]
        show ?thesis unfolding Object by (rule more_fuel) simp
      next
        case (Instance cls tag opts_at)
        show ?thesis
        proof (cases "cls = BoolQuery")
          case True
          from serialize_bool_query[OF Suc.IH c[unfolded Instance True] tc[unfolded Instance True]]
          show ?thesis unfolding Instance True by (rule more_fuel) simp
        next
          case False
          from serialize_other_query[OF Suc.IH c[unfolded Instance] False tc[unfolded Instance]]
          show ?thesis unfolding Instance by (rule more_fuel) simp
        qed
      qed
      with run show ?thesis by simp
    qed
  qed
qed

section \<open>Claims\<close>

text \<open>
  C1. In the document of a bool query, a clause group that holds exactly one clause is
  emitted as that child's serialized document, bare, and a group that holds two or more
  clauses as the array of the children's serialized documents in the order they were
  appended. The document is the single-key object under the type tag. A bool query given
  one \<^verbatim>\<open>must\<close> child and then two \<^verbatim>\<open>should\<close> children serializes to
  \<^verbatim>\<open>{"bool": {"must": c1, "should": [c2, c3]}}\<close>, with no other key.
\<close>

theorem single_clause_bare_many_clauses_array:
  assumes "clause \<in> set clauseNames"
  shows "(obj_get (queryOpts this) clause = JArr [q] \<longrightarrow>
            map_of (cleanQryOpts this) clause = Some (recursiveToJSON q))
       \<and> (obj_get (queryOpts this) clause = JArr qs \<and> 2 \<le> length qs \<longrightarrow>
            map_of (cleanQryOpts this) clause = Some (JArr (map recursiveToJSON qs)))
       \<and> toJSON this = JObj [(qtype this, JObj (cleanQryOpts this))]
       \<and> (isQuery c1 \<and> isQuery c2 \<and> isQuery c3 \<longrightarrow>
            toJSON (snd (should c3 (snd (should c2 (snd (must c1 BoolQuery_new)))))) =
              JObj [(''bool'', JObj [(''must'', recursiveToJSON c1),
                                   (''should'', JArr [recursiveToJSON c2, recursiveToJSON c3])])])"
proof (intro conjI impI)
  assume g: "obj_get (queryOpts this) clause = JArr [q]"
  then have "has (queryOpts this) clause" by (rule obj_get_array_has)
  with assms g show "map_of (cleanQryOpts this) clause = Some (recursiveToJSON q)"
    by (simp add: map_of_cleanQryOpts unwrapSingle_def)
next
  assume g: "obj_get (queryOpts this) clause = JArr qs \<and> 2 \<le> length qs"
  then have "has (queryOpts this) clause" by (simp add: obj_get_array_has)
  with assms g show "map_of (cleanQryOpts this) clause = Some (JArr (map recursiveToJSON qs))"
    by (simp add: map_of_cleanQryOpts unwrapSingle_def)
next
  show "toJSON this = JObj [(qtype this, JObj (cleanQryOpts this))]"
    by (simp add: toJSON_def)
next
  assume c: "isQuery c1 \<and> isQuery c2 \<and> isQuery c3"
  define s1 where "s1 = BoolQuery_new\<lparr>queryOpts := [(''must'', JArr [c1])]\<rparr>"
  define s2 where
    "s2 = BoolQuery_new\<lparr>queryOpts := [(''must'', JArr [c1]), (''should'', JArr [c2])]\<rparr>"
  define s3 where
    "s3 = BoolQuery_new\<lparr>queryOpts := [(''must'', JArr [c1]), (''should'', JArr [c2, c3])]\<rparr>"
  have 1: "must c1 BoolQuery_new = (None, s1)"
    using c by (simp add: must_def addQueries_single s1_def clauses_of_def BoolQuery_new_def
        has_def obj_get_def)
  have 2: "should c2 s1 = (None, s2)"
    using c by (simp add: should_def addQueries_single s1_def s2_def clauses_of_def
        BoolQuery_new_def has_def obj_get_def)
  have 3: "should c3 s2 = (None, s3)"
    using c by (simp add: should_def addQueries_single s2_def s3_def clauses_of_def
        BoolQuery_new_def has_def obj_get_def)
  have "toJSON s3 = JObj [(''bool'', JObj [(''must'', recursiveToJSON c1),
                                   (''should'', JArr [recursiveToJSON c2, recursiveToJSON c3])])]"
    by (simp add: toJSON_def cleanQryOpts_map s3_def BoolQuery_new_def clauseNames_def has_def
        obj_get_def unwrapSingle_def)
  with 1 2 3 show "toJSON (snd (should c3 (snd (should c2 (snd (must c1 BoolQuery_new)))))) =
              JObj [(''bool'', JObj [(''must'', recursiveToJSON c1),
                                   (''should'', JArr [recursiveToJSON c2, recursiveToJSON c3])])]"
    by simp
qed

theorem single_clause_bare_many_clauses_array_witness:
  "''must'' \<in> set clauseNames
   \<and> obj_get (queryOpts (BoolQuery_new\<lparr>queryOpts :=
          [(''must'', JArr [JQuery OtherQuery ''match_all'' []])]\<rparr>)) ''must''
       = JArr [JQuery OtherQuery ''match_all'' []]
   \<and> map_of (cleanQryOpts (BoolQuery_new\<lparr>queryOpts :=
          [(''must'', JArr [JQuery OtherQuery ''match_all'' []])]\<rparr>)) ''must''
       = Some (recursiveToJSON (JQuery OtherQuery ''match_all'' []))
   \<and> obj_get (queryOpts (BoolQuery_new\<lparr>queryOpts :=
          [(''must'', JArr [JQuery OtherQuery ''a'' [], JQuery BoolQuery ''bool'' []])]\<rparr>)) ''must''
       = JArr [JQuery OtherQuery ''a'' [], JQuery BoolQuery ''bool'' []]
   \<and> 2 \<le> length [JQuery OtherQuery ''a'' [], JQuery BoolQuery ''bool'' []]
   \<and> map_of (cleanQryOpts (BoolQuery_new\<lparr>queryOpts :=
          [(''must'', JArr [JQuery OtherQuery ''a'' [], JQuery BoolQuery ''bool'' []])]\<rparr>)) ''must''
       = Some (JArr (map recursiveToJSON [JQuery OtherQuery ''a'' [], JQuery BoolQuery ''bool'' []]))
   \<and> isQuery (JQuery OtherQuery ''a'' []) \<and> isQuery (JQuery OtherQuery ''b'' [])
   \<and> isQuery (JQuery BoolQuery ''bool'' [])
   \<and> toJSON (snd (should (JQuery BoolQuery ''bool'' [])
            (snd (should (JQuery OtherQuery ''b'' [])
              (snd (must (JQuery OtherQuery ''a'' []) BoolQuery_new))))))
       = JObj [(''bool'', JObj [(''must'', recursiveToJSON (JQuery OtherQuery ''a'' [])),
                (''should'', JArr [recursiveToJSON (JQuery OtherQuery ''b'' []),
                                   recursiveToJSON (JQuery BoolQuery ''bool'' [])])])]"
  (is "?m \<and> ?g1 \<and> ?r1 \<and> ?g2 \<and> ?l2 \<and> ?r2 \<and> ?qa \<and> ?qb \<and> ?qc \<and> ?r3")
proof -
  have m: ?m by (simp add: clauseNames_def)
  have g1: ?g1 by (simp add: obj_get_def)
  have g2: ?g2 by (simp add: obj_get_def)
  have l2: ?l2 by simp
  have qa: ?qa and qb: ?qb and qc: ?qc by simp_all
  note main = single_clause_bare_many_clauses_array[OF m]
  from main[THEN conjunct1] g1 have r1: ?r1 by (rule mp)
  from g2 l2 have "?g2 \<and> ?l2" by (rule conjI)
  with main[THEN conjunct2, THEN conjunct1] have r2: ?r2 by (rule mp)
  from qa qb qc have "?qa \<and> ?qb \<and> ?qc" by blast
  with main[THEN conjunct2, THEN conjunct2, THEN conjunct2] have r3: ?r3 by (rule mp)
  from m g1 r1 g2 l2 r2 qa qb qc r3 show ?thesis by blast
qed

text \<open>
  C2. A group to which no clause was added should not appear in the document. In the
  source the group is created by the first statement of \<^verbatim>\<open>_addQueries\<close>, before anything
  is added, and \<^verbatim>\<open>toJSON\<close> picks the clause names that \<^verbatim>\<open>_queryOpts\<close> has, whatever they
  hold: after \<^verbatim>\<open>new BoolQuery().must([])\<close> the group \<^verbatim>\<open>must\<close> holds no clause, and the
  document is \<^verbatim>\<open>{"bool": {"must": []}}\<close>; the same after a call of \<^verbatim>\<open>filter\<close> that threw.
\<close>

theorem empty_group_is_emitted:
  "must (JArr []) BoolQuery_new =
     (None, BoolQuery_new\<lparr>queryOpts := [(''must'', JArr [])]\<rparr>)
   \<and> clauses_of (snd (must (JArr []) BoolQuery_new)) ''must'' = []
   \<and> toJSON (snd (must (JArr []) BoolQuery_new)) = JObj [(''bool'', JObj [(''must'', JArr [])])]
   \<and> fst (filter_clause JNull BoolQuery_new) = Some TypeError
   \<and> toJSON (snd (filter_clause JNull BoolQuery_new)) =
       JObj [(''bool'', JObj [(''filter'', JArr [])])]"
  by (simp add: must_def filter_clause_def addQueries_array addQueries_not_query ensureGroup_def
      BoolQuery_new_def has_def clauses_of_def obj_get_def toJSON_def cleanQryOpts_map
      clauseNames_def unwrapSingle_def)

text \<open>
  C3. A setter call that throws should leave the instance as it was. In the source
  \<^verbatim>\<open>_addQueries\<close> creates the group before \<^verbatim>\<open>_addQuery\<close> checks the argument, so a call that
  throws on a query with no such group leaves the empty group behind:
  \<^verbatim>\<open>new BoolQuery().must(1)\<close> throws a \<^verbatim>\<open>TypeError\<close> and the options are then
  \<^verbatim>\<open>{must: []}\<close>, not \<^verbatim>\<open>{}\<close>; the same for a list with an item that is not a query.
\<close>

theorem failed_call_leaves_empty_group:
  "must (JNum 1) BoolQuery_new =
     (Some TypeError, BoolQuery_new\<lparr>queryOpts := [(''must'', JArr [])]\<rparr>)
   \<and> snd (must (JNum 1) BoolQuery_new) \<noteq> BoolQuery_new
   \<and> mustNot (JArr [JQuery OtherQuery ''match_all'' [], JStr ''x'']) BoolQuery_new =
     (Some TypeError, BoolQuery_new\<lparr>queryOpts := [(''must_not'', JArr [])]\<rparr>)
   \<and> snd (mustNot (JArr [JQuery OtherQuery ''match_all'' [], JStr ''x'']) BoolQuery_new)
       \<noteq> BoolQuery_new"
  by (simp add: must_def mustNot_def addQueries_array addQueries_not_query ensureGroup_def
      BoolQuery_new_def has_def)

text \<open>
  C4. The groups appear in the document in the order of the array literal of \<^verbatim>\<open>toJSON\<close>,
  must, filter, must_not, should, whatever the order of the setter calls: the document
  that \<^verbatim>\<open>toJSON\<close> returns is the single-key object under the type tag whose value has as
  keys the clause names that \<^verbatim>\<open>_queryOpts\<close> has, in that order; two calls of group setters
  on different groups give the same document in either order; and the document depends on
  \<^verbatim>\<open>_queryOpts\<close> only through the values under the four names, not on the order of its
  keys.
\<close>

theorem groups_in_declaration_order:
  "(\<exists>d. toJSON this = JObj [(qtype this, JObj d)]
        \<and> map fst d =
            filter (has (queryOpts this)) [''must'', ''filter'', ''must_not'', ''should''])
   \<and> map fst (cleanQryOpts this) =
       filter (has (queryOpts this)) [''must'', ''filter'', ''must_not'', ''should'']
   \<and> (k1 \<noteq> k2 \<longrightarrow>
        toJSON (snd (addQueries k1 v1 (snd (addQueries k2 v2 this)))) =
        toJSON (snd (addQueries k2 v2 (snd (addQueries k1 v1 this)))))
   \<and> ((\<forall>clause \<in> set clauseNames. map_of (queryOpts a) clause = map_of (queryOpts b) clause)
        \<and> qtype a = qtype b \<longrightarrow> toJSON a = toJSON b)"
proof (intro conjI impI)
  have keys: "map fst (cleanQryOpts this) =
     filter (has (queryOpts this)) [''must'', ''filter'', ''must_not'', ''should'']"
    by (simp add: cleanQryOpts_map comp_def clauseNames_def)
  then show "map fst (cleanQryOpts this) =
     filter (has (queryOpts this)) [''must'', ''filter'', ''must_not'', ''should'']" .
  from keys show "\<exists>d. toJSON this = JObj [(qtype this, JObj d)]
        \<and> map fst d =
            filter (has (queryOpts this)) [''must'', ''filter'', ''must_not'', ''should'']"
    by (intro exI[of _ "cleanQryOpts this"]) (simp add: toJSON_def)
next
  assume "k1 \<noteq> k2"
  then show "toJSON (snd (addQueries k1 v1 (snd (addQueries k2 v2 this)))) =
        toJSON (snd (addQueries k2 v2 (snd (addQueries k1 v1 this))))"
    by (intro toJSON_cong) (simp_all add: addQueries_commute qtype_addQueries)
next
  assume "(\<forall>clause \<in> set clauseNames. map_of (queryOpts a) clause = map_of (queryOpts b) clause)
        \<and> qtype a = qtype b"
  then show "toJSON a = toJSON b" by (simp add: toJSON_cong)
qed

theorem groups_in_declaration_order_witness:
  "''should'' \<noteq> ''must''
   \<and> toJSON (snd (addQueries ''should'' (JQuery OtherQuery ''b'' [])
              (snd (addQueries ''must'' (JQuery OtherQuery ''a'' []) BoolQuery_new)))) =
     toJSON (snd (addQueries ''must'' (JQuery OtherQuery ''a'' [])
              (snd (addQueries ''should'' (JQuery OtherQuery ''b'' []) BoolQuery_new))))
   \<and> toJSON (BoolQuery_new\<lparr>queryOpts :=
        [(''should'', JArr [JQuery OtherQuery ''b'' []]), (''must'', JArr [JQuery OtherQuery ''a'' []])]\<rparr>) =
     toJSON (BoolQuery_new\<lparr>queryOpts :=
        [(''must'', JArr [JQuery OtherQuery ''a'' []]), (''should'', JArr [JQuery OtherQuery ''b'' []])]\<rparr>)
   \<and> map fst (cleanQryOpts (BoolQuery_new\<lparr>queryOpts :=
        [(''should'', JArr [JQuery OtherQuery ''b'' []]), (''must'', JArr [JQuery OtherQuery ''a'' []])]\<rparr>)) =
       [''must'', ''should'']"
  (is "?n \<and> ?r1 \<and> ?r2 \<and> ?r3")
proof -
  let ?a = "BoolQuery_new\<lparr>queryOpts :=
        [(''should'', JArr [JQuery OtherQuery ''b'' []]), (''must'', JArr [JQuery OtherQuery ''a'' []])]\<rparr>"
  let ?b = "BoolQuery_new\<lparr>queryOpts :=
        [(''must'', JArr [JQuery OtherQuery ''a'' []]), (''should'', JArr [JQuery OtherQuery ''b'' []])]\<rparr>"
  have n: ?n by simp
  have h: "(\<forall>clause \<in> set clauseNames. map_of (queryOpts ?a) clause = map_of (queryOpts ?b) clause)
        \<and> qtype ?a = qtype ?b"
    by (simp add: clauseNames_def)
  note main = groups_in_declaration_order[THEN conjunct2]
  from main[THEN conjunct2, THEN conjunct1] n have r1: ?r1 by (rule mp)
  from main[THEN conjunct2, THEN conjunct2] h have r2: ?r2 by (rule mp)
  have "filter (has (queryOpts ?a)) [''must'', ''filter'', ''must_not'', ''should''] =
          [''must'', ''should'']"
    by (simp add: has_def)
  with main[THEN conjunct1, of ?a] have r3: ?r3 by (rule trans)
  from n r1 r2 r3 show ?thesis by blast
qed

text \<open>
  C5. A setter called with \<^verbatim>\<open>undefined\<close> should store no key. The setters of the source
  assign without a test: after \<^verbatim>\<open>childType(undefined)\<close> on a has-child query with no
  options, \<^verbatim>\<open>_queryOpts\<close> has the key \<^verbatim>\<open>child_type\<close>, holding \<^verbatim>\<open>undefined\<close>, and the serializer
  (a keyed mapping keeps its keys) carries the key into the document; likewise
  \<^verbatim>\<open>minChildren\<close> and \<^verbatim>\<open>maxChildren\<close>.
\<close>

theorem setter_stores_undefined:
  "has (queryOpts (childType JUndefined has_child_empty)) ''child_type''
   \<and> queryOpts (childType JUndefined has_child_empty) = [(''child_type'', JUndefined)]
   \<and> queryOpts (minChildren JUndefined has_child_empty) = [(''min_children'', JUndefined)]
   \<and> queryOpts (maxChildren JUndefined has_child_empty) = [(''max_children'', JUndefined)]
   \<and> recursiveToJSON (as_val (childType JUndefined has_child_empty)) =
       JObj [(''has_child'', JObj [(''child_type'', JUndefined)])]"
  by (simp add: childType_def minChildren_def maxChildren_def has_child_empty_def
      has_def as_val_def)

text \<open>
  C5, as the code has it. The constructor tests its optional \<open>type\<close> argument: when it is
  \<^verbatim>\<open>undefined\<close> or \<^verbatim>\<open>null\<close> the instance is left as the base constructor made it, with no
  \<^verbatim>\<open>child_type\<close> key of the constructor's; otherwise the type is stored. The setters
  \<^verbatim>\<open>childType\<close>, \<^verbatim>\<open>minChildren\<close> and \<^verbatim>\<open>maxChildren\<close>, whose argument is not optional,
  assign it whatever it is: after the call the key is present and holds the argument.
\<close>

theorem constructor_skips_nil_setters_assign:
  "(isNil t \<longrightarrow> HasChildQuery_new base t = base)
   \<and> (\<not> isNil t \<longrightarrow>
        queryOpts (HasChildQuery_new base t) = obj_set (queryOpts base) ''child_type'' t)
   \<and> has (queryOpts (childType v this)) ''child_type''
   \<and> obj_get (queryOpts (childType v this)) ''child_type'' = v
   \<and> has (queryOpts (minChildren v this)) ''min_children''
   \<and> obj_get (queryOpts (minChildren v this)) ''min_children'' = v
   \<and> has (queryOpts (maxChildren v this)) ''max_children''
   \<and> obj_get (queryOpts (maxChildren v this)) ''max_children'' = v"
  by (simp add: HasChildQuery_new_def childType_def minChildren_def maxChildren_def
      has_obj_set obj_get_obj_set)

theorem constructor_skips_nil_setters_assign_witness:
  "isNil JUndefined
   \<and> HasChildQuery_new has_child_empty JUndefined = has_child_empty
   \<and> \<not> isNil (JStr ''blog_tag'')
   \<and> queryOpts (HasChildQuery_new has_child_empty (JStr ''blog_tag'')) =
       obj_set (queryOpts has_child_empty) ''child_type'' (JStr ''blog_tag'')"
  (is "?n \<and> ?r1 \<and> ?d \<and> ?r2")
proof -
  have n: ?n by simp
  have d: ?d by simp
  note main = constructor_skips_nil_setters_assign
  from main[THEN conjunct1] n have r1: ?r1 by (rule mp)
  from main[THEN conjunct2, THEN conjunct1] d have r2: ?r2 by (rule mp)
  from n r1 d r2 show ?thesis by blast
qed

text \<open>
  C6. A group setter should throw a \<^verbatim>\<open>TypeError\<close> exactly when an item is not a
  \<^verbatim>\<open>Query\<close>. For a single value the source does so. For a list, \<^verbatim>\<open>_.invokeMap\<close> calls the
  arrow function with each item as receiver and with no argument, so \<^verbatim>\<open>_addQuery\<close> checks
  \<^verbatim>\<open>undefined\<close>: \<^verbatim>\<open>new BoolQuery().must([q])\<close> throws a \<^verbatim>\<open>TypeError\<close> for a valid query
  \<^verbatim>\<open>q\<close>, while \<^verbatim>\<open>new BoolQuery().must(q)\<close> returns.
\<close>

theorem list_of_valid_queries_throws:
  "must (JArr [JQuery OtherQuery ''match_all'' []]) BoolQuery_new =
     (Some TypeError, BoolQuery_new\<lparr>queryOpts := [(''must'', JArr [])]\<rparr>)
   \<and> must (JQuery OtherQuery ''match_all'' []) BoolQuery_new =
     (None, BoolQuery_new\<lparr>queryOpts := [(''must'', JArr [JQuery OtherQuery ''match_all'' []])]\<rparr>)"
  by (simp add: must_def addQueries_array addQueries_single ensureGroup_def BoolQuery_new_def
      has_def clauses_of_def obj_get_def)

text \<open>
  C7. An enumerated option accepts an allowed value in any letter case and rejects every
  other value, \<^verbatim>\<open>null\<close> included, with an \<^verbatim>\<open>InvalidOption\<close> error whose message is
  \<^verbatim>\<open>The '<param>' parameter should be one of '<v1>' or '<v2>'\<close>; for the order direction,
  \<^verbatim>\<open>asc\<close>, \<^verbatim>\<open>ASC\<close>, \<^verbatim>\<open>desc\<close> and \<^verbatim>\<open>DESC\<close> are accepted and \<^verbatim>\<open>invalid_direction\<close> and
  \<^verbatim>\<open>null\<close> fail with
  \<^verbatim>\<open>The 'direction' parameter should be one of 'asc' or 'desc'\<close>.
\<close>

theorem enumerated_option_validated:
  "(toLowerCase s \<in> set allowedValues \<longrightarrow>
      validateEnum p allowedValues (JStr s) = Inr (JStr (toLowerCase s)))
   \<and> ((\<forall>s. v = JStr s \<longrightarrow> toLowerCase s \<notin> {v1, v2}) \<longrightarrow>
        validateEnum p [v1, v2] v =
          Inl (InvalidOption (''The '' @ quote @ p @ quote @ '' parameter should be one of ''
                 @ quote @ v1 @ quote @ '' or '' @ quote @ v2 @ quote)))
   \<and> order k (JStr ''asc'') = Inr [(k, JStr ''asc'')]
   \<and> order k (JStr ''ASC'') = Inr [(k, JStr ''asc'')]
   \<and> order k (JStr ''desc'') = Inr [(k, JStr ''desc'')]
   \<and> order k (JStr ''DESC'') = Inr [(k, JStr ''desc'')]
   \<and> order k (JStr ''invalid_direction'') =
       Inl (InvalidOption (''The 'direction' parameter should be one of 'asc' or 'desc'' @ quote))
   \<and> order k JNull =
       Inl (InvalidOption (''The 'direction' parameter should be one of 'asc' or 'desc'' @ quote))"
proof (intro conjI impI)
  assume "toLowerCase s \<in> set allowedValues"
  then show "validateEnum p allowedValues (JStr s) = Inr (JStr (toLowerCase s))"
    by (simp add: validateEnum_def)
next
  assume "\<forall>s. v = JStr s \<longrightarrow> toLowerCase s \<notin> {v1, v2}"
  then show "validateEnum p [v1, v2] v =
          Inl (InvalidOption (''The '' @ quote @ p @ quote @ '' parameter should be one of ''
                 @ quote @ v1 @ quote @ '' or '' @ quote @ v2 @ quote))"
    by (cases v) (simp_all add: validateEnum_def invalidParam_def)
next
  show "order k (JStr ''asc'') = Inr [(k, JStr ''asc'')]"
    by (simp add: order_def validateEnum_def toLowerCase_directions)
next
  show "order k (JStr ''ASC'') = Inr [(k, JStr ''asc'')]"
    by (simp add: order_def validateEnum_def toLowerCase_directions)
next
  show "order k (JStr ''desc'') = Inr [(k, JStr ''desc'')]"
    by (simp add: order_def validateEnum_def toLowerCase_directions)
next
  show "order k (JStr ''DESC'') = Inr [(k, JStr ''desc'')]"
    by (simp add: order_def validateEnum_def toLowerCase_directions)
next
  show "order k (JStr ''invalid_direction'') =
       Inl (InvalidOption (''The 'direction' parameter should be one of 'asc' or 'desc'' @ quote))"
    by (simp add: order_def validateEnum_def toLowerCase_directions direction_message)
next
  show "order k JNull =
       Inl (InvalidOption (''The 'direction' parameter should be one of 'asc' or 'desc'' @ quote))"
    by (simp add: order_def validateEnum_def direction_message)
qed

theorem enumerated_option_validated_witness:
  "toLowerCase ''DESC'' \<in> set [''asc'', ''desc'']
   \<and> validateEnum ''direction'' [''asc'', ''desc''] (JStr ''DESC'') = Inr (JStr (toLowerCase ''DESC''))
   \<and> validateEnum ''direction'' [''asc'', ''desc''] JNull =
       Inl (InvalidOption (''The '' @ quote @ ''direction'' @ quote
              @ '' parameter should be one of '' @ quote @ ''asc'' @ quote @ '' or ''
              @ quote @ ''desc'' @ quote))
   \<and> validateEnum ''direction'' [''asc'', ''desc''] (JStr ''Up'') =
       Inl (InvalidOption (''The '' @ quote @ ''direction'' @ quote
              @ '' parameter should be one of '' @ quote @ ''asc'' @ quote @ '' or ''
              @ quote @ ''desc'' @ quote))"
  (is "?h \<and> ?r1 \<and> ?r2 \<and> ?r3")
proof -
  have h: ?h by (simp add: toLowerCase_directions)
  have up: "toLowerCase ''Up'' = ''up''" by code_simp
  have n1: "\<forall>s. JNull = JStr s \<longrightarrow> toLowerCase s \<notin> {''asc'', ''desc''}" by simp
  have n2: "\<forall>s. JStr ''Up'' = JStr s \<longrightarrow> toLowerCase s \<notin> {''asc'', ''desc''}"
    by (simp add: up)
  note main = enumerated_option_validated
  from main[THEN conjunct1] h have r1: ?r1 by (rule mp)
  from main[THEN conjunct2, THEN conjunct1] n1 have r2: ?r2 by (rule mp)
  from main[THEN conjunct2, THEN conjunct1] n2 have r3: ?r3 by (rule mp)
  from h r1 r2 r3 show ?thesis by blast
qed

text \<open>
  C8. Serializing reads the clause tree and changes none of its objects. From any store in
  which a value reads as a finite tree, the serializer returns; every object that existed
  before the call is as it was, so the value reads as the same tree after it; the document
  returned is made of new objects only and is the serialized tree; and a second call, with
  no setter call in between, returns a document that reads equal to the first, which
  itself still reads the same. For a bool query the call is \<^verbatim>\<open>BoolQuery.toJSON\<close> of the
  source (the last part of the statement), for every other clause the default of the spec.
\<close>

theorem serialization_leaves_the_store:
  assumes "tree_from n 0 s v = Some t"
  shows "(\<exists>d s'. recursiveToJSON_store n s v = Some (d, s')
           \<and> length s \<le> length s' \<and> take (length s) s' = s
           \<and> tree_from n 0 s' v = Some t
           \<and> tree_from (2 * n) (length s) s' d = Some (recursiveToJSON t)
           \<and> (\<exists>d2 s2. recursiveToJSON_store n s' v = Some (d2, s2)
                 \<and> length s' \<le> length s2 \<and> take (length s') s2 = s'
                 \<and> tree_from n 0 s2 v = Some t
                 \<and> tree_from (2 * n) (length s') s2 d2 = Some (recursiveToJSON t)
                 \<and> tree_from (2 * n) (length s) s2 d = Some (recursiveToJSON t)))
       \<and> (\<forall>m a tag opts_at.
             n = Suc m \<and> v = SRef a \<and> cell_at s a = Some (Instance BoolQuery tag opts_at) \<longrightarrow>
             recursiveToJSON_store n s v = BoolQuery_toJSON (recursiveToJSON_store m) a s)"
proof (rule conjI)
  note sim = recursiveToJSON_store_simulates[of n]
  from sim assms obtain d s' where r1: "recursiveToJSON_store n s v = Some (d, s')"
    and p1: "preserved s s'"
    and d1: "tree_from (2 * n) (length s) s' d = Some (recursiveToJSON t)"
    by (rule simulatesD)
  from assms p1 have t1: "tree_from n 0 s' v = Some t"
    by (rule tree_from_preserved) simp_all
  from sim t1 obtain d2 s2 where r2: "recursiveToJSON_store n s' v = Some (d2, s2)"
    and p2: "preserved s' s2"
    and d2: "tree_from (2 * n) (length s') s2 d2 = Some (recursiveToJSON t)"
    by (rule simulatesD)
  from t1 p2 have t2: "tree_from n 0 s2 v = Some t"
    by (rule tree_from_preserved) simp_all
  from d1 p2 have d12: "tree_from (2 * n) (length s) s2 d = Some (recursiveToJSON t)"
    by (rule tree_from_preserved) simp_all
  from p1 p2 r1 r2 t1 t2 d1 d2 d12
  show "\<exists>d s'. recursiveToJSON_store n s v = Some (d, s')
           \<and> length s \<le> length s' \<and> take (length s) s' = s
           \<and> tree_from n 0 s' v = Some t
           \<and> tree_from (2 * n) (length s) s' d = Some (recursiveToJSON t)
           \<and> (\<exists>d2 s2. recursiveToJSON_store n s' v = Some (d2, s2)
                 \<and> length s' \<le> length s2 \<and> take (length s') s2 = s'
                 \<and> tree_from n 0 s2 v = Some t
                 \<and> tree_from (2 * n) (length s') s2 d2 = Some (recursiveToJSON t)
                 \<and> tree_from (2 * n) (length s) s2 d = Some (recursiveToJSON t))"
    by (auto simp: preserved_def)
next
  show "\<forall>m a tag opts_at.
          n = Suc m \<and> v = SRef a \<and> cell_at s a = Some (Instance BoolQuery tag opts_at) \<longrightarrow>
          recursiveToJSON_store n s v = BoolQuery_toJSON (recursiveToJSON_store m) a s"
    by (simp add: recursiveToJSON_store.simps(2) serialize_cell_def)
qed

theorem serialization_leaves_the_store_witness:
  "tree_from 6 0 example_store (SRef 0) = Some example_tree
   \<and> (\<exists>d s'. recursiveToJSON_store 6 example_store (SRef 0) = Some (d, s')
           \<and> length example_store \<le> length s' \<and> take (length example_store) s' = example_store
           \<and> tree_from 6 0 s' (SRef 0) = Some example_tree
           \<and> tree_from (2 * 6) (length example_store) s' d = Some (recursiveToJSON example_tree)
           \<and> (\<exists>d2 s2. recursiveToJSON_store 6 s' (SRef 0) = Some (d2, s2)
                 \<and> length s' \<le> length s2 \<and> take (length s') s2 = s'
                 \<and> tree_from 6 0 s2 (SRef 0) = Some example_tree
                 \<and> tree_from (2 * 6) (length s') s2 d2 = Some (recursiveToJSON example_tree)
                 \<and> tree_from (2 * 6) (length example_store) s2 d =
                     Some (recursiveToJSON example_tree)))
   \<and> cell_at example_store 0 = Some (Instance BoolQuery ''bool'' 1)
   \<and> recursiveToJSON_store 6 example_store (SRef 0) =
       BoolQuery_toJSON (recursiveToJSON_store 5) 0 example_store"
  (is "?h \<and> ?c \<and> ?cell \<and> ?run")
proof -
  have h: ?h by code_simp
  have cell: ?cell by (simp add: cell_at_def example_store_def)
  have pre: "(6::nat) = Suc 5 \<and> SRef 0 = SRef 0 \<and> ?cell" using cell by simp
  note main = serialization_leaves_the_store[OF h]
  from main have c: ?c by (rule conjunct1)
  from main[THEN conjunct2, rule_format, OF pre] have run: ?run .
  from h c cell run show ?thesis by blast
qed

text \<open>
  C9. Clauses added in several calls should accumulate in the order they were added.
  Calls with one clause each do. A call with a list of clauses throws before anything is
  appended: \<^verbatim>\<open>new BoolQuery().should([a, b])\<close> throws a \<^verbatim>\<open>TypeError\<close> and the group holds
  no clause, while \<^verbatim>\<open>new BoolQuery().should(a).should(b)\<close> leaves the group holding
  \<^verbatim>\<open>a\<close>, \<^verbatim>\<open>b\<close>.
\<close>

theorem list_call_adds_nothing:
  "should (JArr [JQuery OtherQuery ''a'' [], JQuery OtherQuery ''b'' []]) BoolQuery_new =
     (Some TypeError, BoolQuery_new\<lparr>queryOpts := [(''should'', JArr [])]\<rparr>)
   \<and> clauses_of (snd (should (JArr [JQuery OtherQuery ''a'' [], JQuery OtherQuery ''b'' []])
        BoolQuery_new)) ''should'' = []
   \<and> chain should [JQuery OtherQuery ''a'' [], JQuery OtherQuery ''b'' []] BoolQuery_new =
     (None, BoolQuery_new\<lparr>queryOpts :=
        [(''should'', JArr [JQuery OtherQuery ''a'' [], JQuery OtherQuery ''b'' []])]\<rparr>)"
  by (simp add: should_def addQueries_array addQueries_single ensureGroup_def BoolQuery_new_def
      has_def clauses_of_def obj_get_def)

text \<open>
  C10. \<^verbatim>\<open>type(t)\<close> should do what \<^verbatim>\<open>childType(t)\<close> does; the source documents it as an
  alias. The function on the prototype does delegate to \<^verbatim>\<open>childType\<close>, but no call
  reaches it: every instance has the own property \<^verbatim>\<open>type\<close>, the tag, which hides the
  method, so \<^verbatim>\<open>h.type(t)\<close> is a \<^verbatim>\<open>TypeError\<close> and stores nothing, where \<^verbatim>\<open>h.childType(t)\<close>
  returns the instance with \<^verbatim>\<open>t\<close> under \<^verbatim>\<open>child_type\<close>.
\<close>

theorem type_call_hidden_by_tag:
  "call ''type'' t this = (Some TypeError, this)
   \<and> type t this = childType t this
   \<and> call ''type'' (JStr ''blog_tag'') has_child_empty = (Some TypeError, has_child_empty)
   \<and> call ''childType'' (JStr ''blog_tag'') has_child_empty =
       (None, has_child_empty\<lparr>queryOpts := [(''child_type'', JStr ''blog_tag'')]\<rparr>)
   \<and> snd (call ''type'' (JStr ''blog_tag'') has_child_empty)
       \<noteq> snd (call ''childType'' (JStr ''blog_tag'') has_child_empty)"
  by (simp add: call_def own_properties_def HasChildQuery_prototype_def has_def type_def
      childType_def has_child_empty_def)

end
